theory Spec2Isabelle
  imports Main "HOL-Library.AList"
begin

section \<open>Files, directories, paths and text\<close>

text \<open>
  The file system holds the regular files, each with its bytes (a \<open>char\<close> is one
  byte), and the set of directories. Text is UTF-8 and is represented by its encoded
  bytes, so \<^verbatim>\<open>len(line.encode('utf-8'))\<close> is the length of the line. A source is read
  as it is when the call opens it. The file system is taken without clashes: no regular
  file stands where the code makes a directory and no directory where it writes a file,
  so that \<^verbatim>\<open>mkdir\<close> succeeds and a write fails only for want of its directory.
\<close>

type_synonym path = string

record filesystem =
  file_at :: "path \<rightharpoonup> string"
  dirs :: "path set"

datatype error = FileNotFoundError | IsADirectoryError | ValueError

definition LF :: char where
  "LF = CHR 0x0A"

definition CR :: char where
  "CR = CHR 0x0D"

text \<open>
  \<^verbatim>\<open>Path(p) / s\<close> for a left operand that pathlib keeps as it is written (not
  empty, no \<open>.\<close> component, no doubled or trailing \<open>/\<close>) and a right operand of
  that kind or empty: an empty right operand changes nothing, an absolute one replaces
  the left operand.
\<close>

definition joinpath :: "path \<Rightarrow> string \<Rightarrow> path" where
  "joinpath p s = (if s = [] then p else if hd s = CHR ''/'' then s else p @ ''/'' @ s)"

text \<open>
  The directory that holds a path: what stands before its last \<open>/\<close>. It is empty for
  a path without \<open>/\<close> and for a path directly under the root; the current directory
  and the root always exist.
\<close>

definition dirname :: "path \<Rightarrow> path" where
  "dirname p = rev (tl (dropWhile (\<lambda>c. c \<noteq> CHR ''/'') (rev p)))"

text \<open>A path and the directories above it.\<close>

definition ancestors :: "path \<Rightarrow> path list" where
  "ancestors p = p # map (\<lambda>k. take k p) (filter (\<lambda>k. p ! k = CHR ''/'') [0 ..< length p])"

text \<open>\<^verbatim>\<open>Path.exists()\<close>: the path names a regular file or a directory.\<close>

definition path_exists :: "filesystem \<Rightarrow> path \<Rightarrow> bool" where
  "path_exists files p = (file_at files p \<noteq> None \<or> p \<in> dirs files)"

text \<open>\<^verbatim>\<open>mkdir(parents=True, exist_ok=True)\<close>: the directory and all that are missing above it.\<close>

definition mkdir :: "path \<Rightarrow> filesystem \<Rightarrow> filesystem" where
  "mkdir d files = files\<lparr>dirs := dirs files \<union> set (ancestors d)\<rparr>"

text \<open>
  \<^verbatim>\<open>open(p, 'w')\<close> followed by the writes and the close: the file is created or
  replaced when its directory exists, and FileNotFoundError is raised when it does not.
  On POSIX a text file stores \<open>\n\<close> as it is.
\<close>

definition write_file :: "path \<Rightarrow> string \<Rightarrow> filesystem \<Rightarrow> error + filesystem" where
  "write_file p content files =
     (if dirname p = [] \<or> dirname p \<in> dirs files
      then Inr (files\<lparr>file_at := (file_at files)(p \<mapsto> content)\<rparr>)
      else Inl FileNotFoundError)"

text \<open>The decimal digits of a natural number, as an f-string prints an \<^verbatim>\<open>int\<close>.\<close>

fun str :: "nat \<Rightarrow> string" where
  "str n = (if n < 10 then [char_of (48 + n)]
            else str (n div 10) @ [char_of (48 + n mod 10)])"

declare str.simps [simp del]

text \<open>
  \<^verbatim>\<open>open(path, 'r', encoding='utf-8')\<close> reads with universal newlines: each of
  \<open>\r\n\<close>, \<open>\r\<close> and \<open>\n\<close> reaches the program as \<open>\n\<close>.
\<close>

fun universal_newlines :: "string \<Rightarrow> string" where
  "universal_newlines [] = []"
| "universal_newlines [c] = (if c = CR then [LF] else [c])"
| "universal_newlines (c # d # cs) =
     (if c = CR then
        (if d = LF then LF # universal_newlines cs else LF # universal_newlines (d # cs))
      else c # universal_newlines (d # cs))"

text \<open>
  Iterating over a text file yields its lines, each with its terminating \<open>\n\<close>; only
  the last line may lack one.
\<close>

fun iter_lines :: "string \<Rightarrow> string list" where
  "iter_lines [] = []"
| "iter_lines (c # cs) =
     (if c = LF then [c] # iter_lines cs
      else (case iter_lines cs of [] \<Rightarrow> [[c]] | l # ls \<Rightarrow> (c # l) # ls))"

definition text_lines :: "string \<Rightarrow> string list" where
  "text_lines content = iter_lines (universal_newlines content)"

section \<open>FileSplitter\<close>

record FileSplitter =
  target_directory :: path

text \<open>The constructor keeps the target directory and makes it.\<close>

definition FileSplitter_init :: "string \<Rightarrow> filesystem \<Rightarrow> FileSplitter \<times> filesystem" where
  "FileSplitter_init target files = (\<lparr>target_directory = target\<rparr>, mkdir target files)"

definition batch_path :: "path \<Rightarrow> string \<Rightarrow> nat \<Rightarrow> path" where
  "batch_path table_dir table_name batch_number =
     joinpath table_dir (table_name @ ''_batch_'' @ str batch_number @ ''.csv'')"

subsection \<open>split_file: chunks of bytes\<close>

text \<open>
  \<^verbatim>\<open>source.read(n)\<close> on a binary stream: the next \<open>n\<close> bytes (fewer at the end of
  the file), everything for \<open>-1\<close>, and ValueError below that. The result is the chunk
  and the rest of the stream.
\<close>

definition read :: "int \<Rightarrow> string \<Rightarrow> error + (string \<times> string)" where
  "read n s =
     (if n < - 1 then Inl ValueError
      else if n = - 1 then Inr (s, [])
      else Inr (take (nat n) s, drop (nat n) s))"

function split_file_loop ::
  "path \<Rightarrow> string \<Rightarrow> int \<Rightarrow> string \<Rightarrow> nat \<Rightarrow> path list \<Rightarrow> filesystem
     \<Rightarrow> (error + path list) \<times> filesystem" where
  "split_file_loop table_dir table_name batch_size_bytes source batch_number batch_files files =
     (case read batch_size_bytes source of
        Inl e \<Rightarrow> (Inl e, files)
      | Inr (chunk, source') \<Rightarrow>
          if chunk = [] then (Inr batch_files, files)
          else
            let p = batch_path table_dir table_name batch_number
            in case write_file p chunk files of
                 Inl e \<Rightarrow> (Inl e, files)
               | Inr files' \<Rightarrow>
                   split_file_loop table_dir table_name batch_size_bytes source'
                     (batch_number + 1) (batch_files @ [p]) files')"
  by pat_completeness auto
termination
  by (relation "measure (\<lambda>(_, _, _, source, _). length source)")
     (auto simp: read_def split: if_splits)

declare split_file_loop.simps [simp del]

text \<open>
  The source must exist; a directory exists too, and opening it raises
  IsADirectoryError, after the directory of the table has been made.
\<close>

definition split_file ::
  "FileSplitter \<Rightarrow> path \<Rightarrow> int \<Rightarrow> string \<Rightarrow> filesystem
     \<Rightarrow> (error + path list) \<times> filesystem" where
  "split_file self source_file batch_size_mb table_name files =
     (if \<not> path_exists files source_file then (Inl FileNotFoundError, files)
      else
        let batch_size_bytes = batch_size_mb * 1024 * 1024;
            table_dir = joinpath (target_directory self) table_name;
            files1 = mkdir table_dir files
        in case file_at files1 source_file of
             None \<Rightarrow> (Inl IsADirectoryError, files1)
           | Some content \<Rightarrow>
               split_file_loop table_dir table_name batch_size_bytes content 1 [] files1)"

subsection \<open>split_file_by_lines: whole lines under a repeated header\<close>

record lines_state =
  batch_number :: nat
  current_batch_size :: int
  batch_lines :: "string list"
  header :: "string option"
  batch_files :: "path list"
  fs :: filesystem

text \<open>
  Writing one batch file: the header, if one has been read and is not empty, then the
  accumulated lines; the path joins the list of results. Opening the file may raise.
\<close>

definition write_batch :: "path \<Rightarrow> string \<Rightarrow> lines_state \<Rightarrow> error + lines_state" where
  "write_batch table_dir table_name st =
     (let p = batch_path table_dir table_name (batch_number st);
          text = (case header st of None \<Rightarrow> [] | Some h \<Rightarrow> h) @ concat (batch_lines st)
      in case write_file p text (fs st) of
           Inl e \<Rightarrow> Inl e
         | Inr files' \<Rightarrow> Inr (st\<lparr>batch_files := batch_files st @ [p], fs := files'\<rparr>))"

text \<open>The body of the loop over \<^verbatim>\<open>enumerate(source)\<close>.\<close>

definition lines_step ::
  "path \<Rightarrow> string \<Rightarrow> int \<Rightarrow> lines_state \<Rightarrow> nat \<times> string \<Rightarrow> error + lines_state" where
  "lines_step table_dir table_name batch_size_bytes st = (\<lambda>(line_number, line).
     if line_number = 0 then Inr (st\<lparr>header := Some line\<rparr>)
     else
       let line_size = int (length line)
       in case (if current_batch_size st + line_size > batch_size_bytes \<and> batch_lines st \<noteq> []
                then (case write_batch table_dir table_name st of
                        Inl e \<Rightarrow> Inl e
                      | Inr st' \<Rightarrow>
                          Inr (st'\<lparr>batch_number := batch_number st + 1,
                                  current_batch_size := 0, batch_lines := []\<rparr>))
                else Inr st) of
            Inl e \<Rightarrow> Inl e
          | Inr st1 \<Rightarrow>
              Inr (st1\<lparr>current_batch_size := current_batch_size st1 + line_size,
                       batch_lines := batch_lines st1 @ [line]\<rparr>))"

text \<open>
  The \<^verbatim>\<open>for\<close> statement: the body runs on each item until one raises; what has been
  written by then stays written.
\<close>

fun for_lines ::
  "(lines_state \<Rightarrow> nat \<times> string \<Rightarrow> error + lines_state) \<Rightarrow> lines_state \<Rightarrow> (nat \<times> string) list
     \<Rightarrow> (error \<times> filesystem) + lines_state" where
  "for_lines body st [] = Inr st"
| "for_lines body st (x # xs) =
     (case body st x of Inl e \<Rightarrow> Inl (e, fs st) | Inr st' \<Rightarrow> for_lines body st' xs)"

text \<open>After the loop: the remaining lines, if any, are written, and the paths returned.\<close>

definition finish_lines ::
  "path \<Rightarrow> string \<Rightarrow> (error \<times> filesystem) + lines_state \<Rightarrow> (error + path list) \<times> filesystem" where
  "finish_lines table_dir table_name r =
     (case r of
        Inl (e, files) \<Rightarrow> (Inl e, files)
      | Inr st1 \<Rightarrow>
          if batch_lines st1 \<noteq> []
          then (case write_batch table_dir table_name st1 of
                  Inl e \<Rightarrow> (Inl e, fs st1)
                | Inr st2 \<Rightarrow> (Inr (batch_files st2), fs st2))
          else (Inr (batch_files st1), fs st1))"

text \<open>
  The block under \<^verbatim>\<open>with open(source_path, 'r', encoding='utf-8')\<close>, on the lines of
  the source and the threshold in bytes.
\<close>

definition split_lines ::
  "path \<Rightarrow> string \<Rightarrow> int \<Rightarrow> string list \<Rightarrow> filesystem \<Rightarrow> (error + path list) \<times> filesystem" where
  "split_lines table_dir table_name batch_size_bytes source files =
     (let st0 = \<lparr>batch_number = 1, current_batch_size = 0, batch_lines = [],
                 header = None, batch_files = [], fs = files\<rparr>
      in finish_lines table_dir table_name
           (for_lines (lines_step table_dir table_name batch_size_bytes) st0
              (enumerate 0 source)))"

definition split_file_by_lines ::
  "FileSplitter \<Rightarrow> path \<Rightarrow> int \<Rightarrow> string \<Rightarrow> filesystem
     \<Rightarrow> (error + path list) \<times> filesystem" where
  "split_file_by_lines self source_file batch_size_mb table_name files =
     (if \<not> path_exists files source_file then (Inl FileNotFoundError, files)
      else
        let batch_size_bytes = batch_size_mb * 1024 * 1024;
            table_dir = joinpath (target_directory self) table_name;
            files1 = mkdir table_dir files
        in case file_at files1 source_file of
             None \<Rightarrow> (Inl IsADirectoryError, files1)
           | Some content \<Rightarrow>
               split_lines table_dir table_name batch_size_bytes (text_lines content) files1)"

subsection \<open>create_batch_summary\<close>

text \<open>
  \<^verbatim>\<open>get_file_size_mb\<close> calls \<^verbatim>\<open>stat\<close>, which raises for a path that names no file. The
  sizes in megabytes are floating-point numbers that only reach the printed report; the
  summary of the model keeps the number of batches and the size of each file in bytes.
  (\<open>batch_file_list\<close> is the source's \<^verbatim>\<open>batch_files\<close>, a name the state of the
  line loop already uses.)
\<close>

definition get_file_size :: "filesystem \<Rightarrow> path \<Rightarrow> error + nat" where
  "get_file_size files file_path =
     (case file_at files file_path of None \<Rightarrow> Inl FileNotFoundError | Some c \<Rightarrow> Inr (length c))"

fun batch_details :: "filesystem \<Rightarrow> path list \<Rightarrow> error + (path \<times> nat) list" where
  "batch_details files [] = Inr []"
| "batch_details files (batch_file # rest) =
     (case get_file_size files batch_file of
        Inl e \<Rightarrow> Inl e
      | Inr size_bytes \<Rightarrow>
          (case batch_details files rest of
             Inl e \<Rightarrow> Inl e
           | Inr details \<Rightarrow> Inr ((batch_file, size_bytes) # details)))"

definition create_batch_summary ::
  "filesystem \<Rightarrow> path list \<Rightarrow> error + (nat \<times> (path \<times> nat) list)" where
  "create_batch_summary files batch_file_list =
     (case batch_details files batch_file_list of
        Inl e \<Rightarrow> Inl e
      | Inr details \<Rightarrow> Inr (length batch_file_list, details))"

subsection \<open>split_multiple_files\<close>

text \<open>
  The result dictionary keeps its keys in insertion order; assigning to a key that is
  present replaces the value where it stands. The \<^verbatim>\<open>try\<close> block covers the call of the
  splitter, the assignment and the summary, and its handler stores the empty list.
\<close>

type_synonym results = "(string \<times> path list) list"

fun split_multiple_loop ::
  "FileSplitter \<Rightarrow> (path \<times> int \<times> string) list \<Rightarrow> results \<Rightarrow> filesystem
     \<Rightarrow> results \<times> filesystem" where
  "split_multiple_loop splitter [] results files = (results, files)"
| "split_multiple_loop splitter ((source_file, batch_size_mb, table_name) # rest) results files =
     (case split_file_by_lines splitter source_file batch_size_mb table_name files of
        (Inl e, files') \<Rightarrow>
          split_multiple_loop splitter rest (AList.update table_name [] results) files'
      | (Inr batch_file_list, files') \<Rightarrow>
          (let results' = AList.update table_name batch_file_list results
           in case create_batch_summary files' batch_file_list of
                Inl e \<Rightarrow>
                  split_multiple_loop splitter rest (AList.update table_name [] results') files'
              | Inr summary \<Rightarrow> split_multiple_loop splitter rest results' files'))"

definition split_multiple_files ::
  "(path \<times> int \<times> string) list \<Rightarrow> string \<Rightarrow> filesystem \<Rightarrow> results \<times> filesystem" where
  "split_multiple_files file_configs target files =
     (let (splitter, files1) = FileSplitter_init target files
      in split_multiple_loop splitter file_configs [] files1)"


section \<open>Notions used by the properties\<close>

text \<open>What one call of the splitter leaves under its label: its batch files, or nothing.\<close>

definition outcome :: "error + path list \<Rightarrow> path list" where
  "outcome r = (case r of Inl e \<Rightarrow> [] | Inr batch_file_list \<Rightarrow> batch_file_list)"

definition label :: "path \<times> int \<times> string \<Rightarrow> string" where
  "label config = (case config of (source_file, batch_size_mb, table_name) \<Rightarrow> table_name)"

text \<open>
  The rule of the specification for one data line, in its own words: flush first when
  the running count is non-zero and the line would take it over the target, then append.
\<close>

definition flush_before_append ::
  "path \<Rightarrow> string \<Rightarrow> int \<Rightarrow> lines_state \<Rightarrow> string \<Rightarrow> error + lines_state" where
  "flush_before_append table_dir table_name target st line =
     (let line_size = int (length line);
          running = current_batch_size st
      in case (if running \<noteq> 0 \<and> running + line_size > target
               then (case write_batch table_dir table_name st of
                       Inl e \<Rightarrow> Inl e
                     | Inr st' \<Rightarrow>
                         Inr (st'\<lparr>batch_number := batch_number st + 1,
                                 current_batch_size := 0, batch_lines := []\<rparr>))
               else Inr st) of
           Inl e \<Rightarrow> Inl e
         | Inr st1 \<Rightarrow>
             Inr (st1\<lparr>current_batch_size := current_batch_size st1 + line_size,
                      batch_lines := batch_lines st1 @ [line]\<rparr>))"

definition spec_step ::
  "path \<Rightarrow> string \<Rightarrow> int \<Rightarrow> lines_state \<Rightarrow> nat \<times> string \<Rightarrow> error + lines_state" where
  "spec_step table_dir table_name target st = (\<lambda>(line_number, line).
     if line_number = 0 then Inr (st\<lparr>header := Some line\<rparr>)
     else flush_before_append table_dir table_name target st line)"

definition spec_split_lines ::
  "path \<Rightarrow> string \<Rightarrow> int \<Rightarrow> string list \<Rightarrow> filesystem \<Rightarrow> (error + path list) \<times> filesystem" where
  "spec_split_lines table_dir table_name target source files =
     (let st0 = \<lparr>batch_number = 1, current_batch_size = 0, batch_lines = [],
                 header = None, batch_files = [], fs = files\<rparr>
      in finish_lines table_dir table_name
           (for_lines (spec_step table_dir table_name target) st0 (enumerate 0 source)))"

definition size_lines :: "string list \<Rightarrow> int" where
  "size_lines ls = int (length (concat ls))"

text \<open>
  The running count is the size of the accumulated lines, none of which is empty: the
  relation between the two tests, on the count and on the list.
\<close>

definition running_count_ok :: "lines_state \<Rightarrow> bool" where
  "running_count_ok st =
     (current_batch_size st = size_lines (batch_lines st) \<and> [] \<notin> set (batch_lines st))"

text \<open>
  Reading a file back: as text, and as raw lines, cut after each line feed, that keep
  their bytes.
\<close>

definition raw_lines :: "string \<Rightarrow> string list" where
  "raw_lines content = iter_lines content"

definition read_text :: "filesystem \<Rightarrow> path \<Rightarrow> error + string list" where
  "read_text files p =
     (case file_at files p of None \<Rightarrow> Inl FileNotFoundError | Some c \<Rightarrow> Inr (text_lines c))"

definition read_raw :: "filesystem \<Rightarrow> path \<Rightarrow> error + string list" where
  "read_raw files p =
     (case file_at files p of None \<Rightarrow> Inl FileNotFoundError | Some c \<Rightarrow> Inr (raw_lines c))"

text \<open>The batches that the loop forms from the data lines, as lists of lines.\<close>

fun group_lines :: "int \<Rightarrow> int \<Rightarrow> string list \<Rightarrow> string list \<Rightarrow> string list list" where
  "group_lines T cur acc [] = (if acc = [] then [] else [acc])"
| "group_lines T cur acc (l # ls) =
     (if cur + int (length l) > T \<and> acc \<noteq> []
      then acc # group_lines T (int (length l)) [l] ls
      else group_lines T (cur + int (length l)) (acc @ [l]) ls)"

definition write_all :: "(path \<rightharpoonup> string) \<Rightarrow> (path \<times> string) list \<Rightarrow> (path \<rightharpoonup> string)" where
  "write_all m ws = foldl (\<lambda>f (p, c). f(p \<mapsto> c)) m ws"

definition batch_writes :: "path \<Rightarrow> string \<Rightarrow> nat \<Rightarrow> string list \<Rightarrow> (path \<times> string) list" where
  "batch_writes d t n cs = zip (map (batch_path d t) [n ..< n + length cs]) cs"

definition header_text :: "string option \<Rightarrow> string" where
  "header_text h = (case h of None \<Rightarrow> [] | Some s \<Rightarrow> s)"

text \<open>
  The directory that holds the batch files of a table, whatever their number, and
  whether it is there to be written to.
\<close>

definition batch_dir :: "path \<Rightarrow> string \<Rightarrow> path" where
  "batch_dir d t = dirname (joinpath d (t @ ''_batch_''))"

definition writable :: "filesystem \<Rightarrow> path \<Rightarrow> string \<Rightarrow> bool" where
  "writable files d t = (batch_dir d t = [] \<or> batch_dir d t \<in> dirs files)"

text \<open>A line is not empty and has no line feed before its last character.\<close>

definition is_line :: "string \<Rightarrow> bool" where
  "is_line l = (l \<noteq> [] \<and> LF \<notin> set (butlast l))"

fun wf_lines :: "string list \<Rightarrow> bool" where
  "wf_lines [] = True"
| "wf_lines [l] = is_line l"
| "wf_lines (l # m # ls) = (is_line l \<and> last l = LF \<and> wf_lines (m # ls))"

text \<open>The chunks that successive reads of \<open>n\<close> bytes return.\<close>

fun chunks :: "nat \<Rightarrow> string \<Rightarrow> string list" where
  "chunks n s = (if n = 0 \<or> s = [] then [] else take n s # chunks n (drop n s))"

declare chunks.simps [simp del]


section \<open>Writing files and reading them back\<close>

lemma write_all_Nil [simp]: "write_all f [] = f"
  by (simp add: write_all_def)

lemma write_all_Cons [simp]: "write_all f ((p, c) # ws) = write_all (f(p \<mapsto> c)) ws"
  by (simp add: write_all_def)

lemma write_all_other: "p \<notin> fst ` set ws \<Longrightarrow> write_all f ws p = f p"
proof (induction ws arbitrary: f)
  case Nil
  show ?case by simp
next
  case (Cons w ws)
  obtain q c where w: "w = (q, c)" by (cases w)
  from Cons.prems w have pq: "p \<noteq> q" and notin: "p \<notin> fst ` set ws" by auto
  from Cons.IH [OF notin, of "f(q \<mapsto> c)"] have "write_all (f(q \<mapsto> c)) ws p = (f(q \<mapsto> c)) p" .
  with pq w show ?case by simp
qed

lemma write_all_distinct:
  "distinct (map fst ws) \<Longrightarrow> (p, c) \<in> set ws \<Longrightarrow> write_all f ws p = Some c"
proof (induction ws arbitrary: f)
  case Nil
  then show ?case by simp
next
  case (Cons w ws)
  obtain q d where w: "w = (q, d)" by (cases w)
  from Cons.prems(1) w have q: "q \<notin> fst ` set ws" and dist: "distinct (map fst ws)" by simp_all
  show ?case
  proof (cases "(p, c) = (q, d)")
    case True
    with q w show ?thesis by (simp add: write_all_other)
  next
    case False
    with Cons.prems(2) w have mem: "(p, c) \<in> set ws" by auto
    have "write_all (f(q \<mapsto> d)) ws p = Some c" by (rule Cons.IH [OF dist mem])
    with w show ?thesis by simp
  qed
qed

lemma write_all_dom: "p \<in> fst ` set ws \<Longrightarrow> write_all f ws p \<noteq> None"
proof (induction ws arbitrary: f)
  case Nil
  then show ?case by simp
next
  case (Cons w ws)
  obtain q d where w: "w = (q, d)" by (cases w)
  show ?case
  proof (cases "p \<in> fst ` set ws")
    case True
    have "write_all (f(q \<mapsto> d)) ws p \<noteq> None" by (rule Cons.IH [OF True])
    with w show ?thesis by simp
  next
    case False
    with Cons.prems w have "p = q" by auto
    with False w show ?thesis by (simp add: write_all_other)
  qed
qed

lemma map_write_all:
  assumes "distinct (map fst ws)"
  shows "map (write_all f ws) (map fst ws) = map (\<lambda>w. Some (snd w)) ws"
proof -
  have "write_all f ws (fst w) = Some (snd w)" if "w \<in> set ws" for w
    using assms that by (intro write_all_distinct) simp_all
  then show ?thesis by simp
qed

lemma batch_writes_Nil [simp]: "batch_writes d t n [] = []"
  by (simp add: batch_writes_def)

lemma batch_writes_Cons [simp]:
  "batch_writes d t n (c # cs) = (batch_path d t n, c) # batch_writes d t (Suc n) cs"
  by (simp add: batch_writes_def upt_conv_Cons del: upt_Suc)

lemma map_fst_batch_writes:
  "map fst (batch_writes d t n cs) = map (batch_path d t) [n ..< n + length cs]"
  by (simp add: batch_writes_def)

lemma map_snd_batch_writes: "map snd (batch_writes d t n cs) = cs"
  by (simp add: batch_writes_def)

lemma length_batch_writes [simp]: "length (batch_writes d t n cs) = length cs"
  by (simp add: batch_writes_def)

section \<open>Decimal digits and batch paths are injective\<close>

lemma str_nonempty: "str n \<noteq> []"
  by (subst str.simps) simp

lemma str_small: "n < 10 \<Longrightarrow> str n = [char_of (48 + n)]"
  by (subst str.simps) simp

lemma str_large: "\<not> n < 10 \<Longrightarrow> str n = str (n div 10) @ [char_of (48 + n mod 10)]"
  by (subst str.simps) simp

lemma str_1: "str 1 = ''1''" "str (Suc 0) = ''1''"
  by code_simp+

lemma str_2: "str 2 = ''2''"
  by code_simp

lemma str_3: "str 3 = ''3''"
  by code_simp

lemma str_Suc: "str (Suc (Suc 0)) = ''2''" "str (Suc (Suc (Suc 0))) = ''3''"
  by code_simp+

lemma char_of_digit_inj:
  assumes "a < 10" "b < 10" "(char_of (48 + a) :: char) = char_of (48 + b)"
  shows "a = (b::nat)"
proof -
  from assms(3)
  have "(of_char (char_of (48 + a) :: char) :: nat) = of_char (char_of (48 + b) :: char)"
    by (rule arg_cong)
  then have "(48 + a) mod 256 = (48 + b) mod 256"
    by (simp only: of_char_of)
  with assms(1,2) show ?thesis by simp
qed

lemma single_eq_snoc: "[c] = xs @ [d] \<Longrightarrow> xs = []"
  by (cases xs) simp_all

lemma str_inj: "str n = str m \<Longrightarrow> n = m"
proof (induction n arbitrary: m rule: str.induct)
  case (1 n)
  show ?case
  proof (cases "n < 10")
    case True
    note n = this
    show ?thesis
    proof (cases "m < 10")
      case True
      from "1.prems" have "(char_of (48 + n) :: char) = char_of (48 + m)"
        unfolding str_small [OF n] str_small [OF True] by (simp only: list.inject)
      with n True show ?thesis by (rule char_of_digit_inj)
    next
      case False
      from "1.prems" have "[char_of (48 + n)] = str (m div 10) @ [char_of (48 + m mod 10)]"
        unfolding str_small [OF n] str_large [OF False] .
      then have "str (m div 10) = []" by (rule single_eq_snoc)
      with str_nonempty show ?thesis by blast
    qed
  next
    case False
    note n = this
    show ?thesis
    proof (cases "m < 10")
      case True
      from "1.prems" have "[char_of (48 + m)] = str (n div 10) @ [char_of (48 + n mod 10)]"
        unfolding str_small [OF True] str_large [OF n] by (rule sym)
      then have "str (n div 10) = []" by (rule single_eq_snoc)
      with str_nonempty show ?thesis by blast
    next
      case mf: False
      from "1.prems"
      have "str (n div 10) @ [char_of (48 + n mod 10)] = str (m div 10) @ [char_of (48 + m mod 10)]"
        unfolding str_large [OF n] str_large [OF mf] .
      then have e1: "str (n div 10) = str (m div 10)"
        and e2: "(char_of (48 + n mod 10) :: char) = char_of (48 + m mod 10)"
        by (simp_all only: append1_eq_conv)
      from "1.IH" [OF n e1] have d: "n div 10 = m div 10" .
      have "n mod 10 = m mod 10" by (rule char_of_digit_inj [OF _ _ e2]) simp_all
      with d have "10 * (n div 10) + n mod 10 = 10 * (m div 10) + m mod 10" by simp
      then show ?thesis by simp
    qed
  qed
qed

lemma joinpath_inj:
  assumes "s \<noteq> []" "s' \<noteq> []" "hd s = hd s'" "joinpath d s = joinpath d s'"
  shows "s = s'"
proof (cases "hd s = CHR ''/''")
  case True
  with assms show ?thesis by (simp add: joinpath_def)
next
  case False
  with assms have "d @ ''/'' @ s = d @ ''/'' @ s'" by (simp add: joinpath_def)
  then show ?thesis by (simp only: same_append_eq)
qed

lemma batch_path_inj:
  assumes eq: "batch_path d t n = batch_path d t m"
  shows "n = m"
proof -
  let ?f = "\<lambda>k. t @ ''_batch_'' @ str k @ ''.csv''"
  have h: "hd (?f n) = hd (?f m)"
    by (cases t) simp_all
  have ne: "?f n \<noteq> []" "?f m \<noteq> []" by simp_all
  from eq have "joinpath d (?f n) = joinpath d (?f m)"
    by (simp only: batch_path_def)
  with ne h have "?f n = ?f m" by (rule joinpath_inj)
  then have "str n @ ''.csv'' = str m @ ''.csv''" by (simp only: same_append_eq)
  then have "str n = str m" by (simp only: append_same_eq)
  then show ?thesis by (rule str_inj)
qed

lemma distinct_batch_paths: "distinct (map (batch_path d t) [n ..< m])"
  by (simp add: distinct_map inj_on_def) (blast dest: batch_path_inj)

lemma distinct_batch_writes: "distinct (map fst (batch_writes d t n cs))"
  by (simp only: map_fst_batch_writes distinct_batch_paths)

lemma read_back_batch_writes:
  "map (write_all f (batch_writes d t n cs)) (map (batch_path d t) [n ..< n + length cs])
     = map Some cs"
proof -
  have "map (write_all f (batch_writes d t n cs)) (map fst (batch_writes d t n cs))
          = map (\<lambda>w. Some (snd w)) (batch_writes d t n cs)"
    by (rule map_write_all [OF distinct_batch_writes])
  also have "\<dots> = map Some (map snd (batch_writes d t n cs))" by simp
  finally show ?thesis by (simp only: map_fst_batch_writes map_snd_batch_writes)
qed

section \<open>Directories of batch paths\<close>

lemma dirname_suffix:
  assumes "CHR ''/'' \<notin> set s"
  shows "dirname (x @ s) = dirname x"
proof -
  have "dropWhile (\<lambda>c. c \<noteq> CHR ''/'') (rev s @ rev x) = dropWhile (\<lambda>c. c \<noteq> CHR ''/'') (rev x)"
    using assms by (intro dropWhile_append2) auto
  then show ?thesis by (simp add: dirname_def)
qed

lemma dirname_join: "CHR ''/'' \<notin> set f \<Longrightarrow> dirname (d @ ''/'' @ f) = d"
proof -
  assume f: "CHR ''/'' \<notin> set f"
  have "dirname ((d @ ''/'') @ f) = dirname (d @ ''/'')" using f by (rule dirname_suffix)
  also have "\<dots> = d" by (simp add: dirname_def)
  finally show ?thesis by simp
qed

lemma digit_not_slash: "(k::nat) < 10 \<Longrightarrow> (char_of (48 + k) :: char) \<noteq> CHR ''/''"
proof
  assume k: "k < 10" and eq: "(char_of (48 + k) :: char) = CHR ''/''"
  from eq have "(of_char (char_of (48 + k) :: char) :: nat) = of_char (CHR ''/'')"
    by (rule arg_cong)
  then have "(48 + k) mod 256 = (47::nat)" by (simp only: of_char_of) simp
  with k show False by simp
qed

lemma str_no_slash: "CHR ''/'' \<notin> set (str n)"
proof (induction n rule: str.induct)
  case (1 n)
  show ?case
  proof (cases "n < 10")
    case True
    then show ?thesis using digit_not_slash [of n] by (simp add: str_small)
  next
    case False
    have "n mod 10 < 10" by simp
    then have "(char_of (48 + n mod 10) :: char) \<noteq> CHR ''/''" by (rule digit_not_slash)
    with False "1.IH" show ?thesis by (simp add: str_large)
  qed
qed

lemma batch_path_prefix:
  "batch_path d t n = joinpath d (t @ ''_batch_'') @ str n @ ''.csv''"
  by (cases t) (simp_all add: batch_path_def joinpath_def)

lemma dirname_batch_path: "dirname (batch_path d t n) = batch_dir d t"
proof -
  have "CHR ''/'' \<notin> set (str n @ ''.csv'')" using str_no_slash [of n] by simp
  then have "dirname (joinpath d (t @ ''_batch_'') @ (str n @ ''.csv''))
               = dirname (joinpath d (t @ ''_batch_''))"
    by (rule dirname_suffix)
  then show ?thesis by (simp add: batch_path_prefix batch_dir_def)
qed

lemma batch_dir_plain: "CHR ''/'' \<notin> set t \<Longrightarrow> batch_dir d t = d"
proof -
  assume t: "CHR ''/'' \<notin> set t"
  then have "hd (t @ ''_batch_'') \<noteq> CHR ''/''" by (cases t) auto
  then have j: "joinpath d (t @ ''_batch_'') = d @ ''/'' @ (t @ ''_batch_'')"
    by (simp add: joinpath_def)
  have nf: "CHR ''/'' \<notin> set (t @ ''_batch_'')" using t by simp
  show ?thesis unfolding batch_dir_def j by (rule dirname_join [OF nf])
qed

lemma self_ancestor: "d \<in> set (ancestors d)"
  by (simp add: ancestors_def)

lemma mkdir_simps [simp]:
  "file_at (mkdir d files) = file_at files"
  "dirs (mkdir d files) = dirs files \<union> set (ancestors d)"
  by (simp_all add: mkdir_def)

lemma writable_mkdir: "CHR ''/'' \<notin> set t \<Longrightarrow> writable (mkdir d files) d t"
  by (simp add: writable_def batch_dir_plain self_ancestor)

lemma writable_plain: "CHR ''/'' \<notin> set t \<Longrightarrow> d \<in> dirs files \<Longrightarrow> writable files d t"
  by (simp add: writable_def batch_dir_plain)

lemma write_file_batch:
  "write_file (batch_path d t n) c files =
     (if writable files d t then Inr (files\<lparr>file_at := (file_at files)(batch_path d t n \<mapsto> c)\<rparr>)
      else Inl FileNotFoundError)"
  by (simp add: write_file_def dirname_batch_path writable_def)

lemma writable_file_at [simp]: "writable (files\<lparr>file_at := m\<rparr>) d t = writable files d t"
  by (simp add: writable_def)

section \<open>Lines of a text\<close>

lemma universal_newlines_id: "CR \<notin> set s \<Longrightarrow> universal_newlines s = s"
  by (induction s rule: universal_newlines.induct) auto

lemma universal_newlines_no_CR: "CR \<notin> set (universal_newlines s)"
  by (induction s rule: universal_newlines.induct) (auto simp: CR_def LF_def)

lemma concat_iter_lines: "concat (iter_lines s) = s"
  by (induction s) (auto split: list.splits)

lemma is_line_Cons: "is_line l \<Longrightarrow> c \<noteq> LF \<Longrightarrow> is_line (c # l)"
  by (simp add: is_line_def)

lemma wf_lines_iter_lines: "wf_lines (iter_lines s)"
proof (induction s)
  case Nil
  show ?case by simp
next
  case (Cons c cs)
  show ?case
  proof (cases "iter_lines cs")
    case Nil
    then show ?thesis by (simp add: is_line_def)
  next
    case (Cons l ls)
    with Cons.IH have wf: "wf_lines (l # ls)" by simp
    then have l: "is_line l" by (cases ls) simp_all
    show ?thesis
    proof (cases "c = LF")
      case True
      with Cons wf show ?thesis by (simp add: is_line_def)
    next
      case False
      with l have "is_line (c # l)" by (simp add: is_line_Cons)
      moreover from l have "last (c # l) = last l" by (simp add: is_line_def)
      ultimately have "wf_lines ((c # l) # ls)" using wf by (cases ls) simp_all
      with Cons False show ?thesis by simp
    qed
  qed
qed

lemma iter_lines_single: "is_line l \<Longrightarrow> iter_lines l = [l]"
proof (induction l)
  case Nil
  then show ?case by (simp add: is_line_def)
next
  case (Cons c l)
  show ?case
  proof (cases "l = []")
    case True
    then show ?thesis by simp
  next
    case False
    with Cons.prems have "c \<noteq> LF" "is_line l" by (auto simp: is_line_def)
    with Cons.IH show ?thesis by simp
  qed
qed

lemma iter_lines_terminated:
  "is_line l \<Longrightarrow> last l = LF \<Longrightarrow> iter_lines (l @ rest) = l # iter_lines rest"
proof (induction l)
  case Nil
  then show ?case by (simp add: is_line_def)
next
  case (Cons c l)
  show ?case
  proof (cases "l = []")
    case True
    with Cons.prems show ?thesis by simp
  next
    case False
    with Cons.prems have "c \<noteq> LF" "is_line l" "last l = LF" by (auto simp: is_line_def)
    with Cons.IH show ?thesis by simp
  qed
qed

lemma iter_lines_concat: "wf_lines ls \<Longrightarrow> iter_lines (concat ls) = ls"
proof (induction ls rule: wf_lines.induct)
  case 1
  show ?case by simp
next
  case (2 l)
  then show ?case by (simp add: iter_lines_single)
next
  case (3 l m ls)
  then show ?case by (simp add: iter_lines_terminated)
qed

lemma wf_lines_Cons: "wf_lines (l # ls) \<Longrightarrow> wf_lines ls"
  by (cases ls) simp_all

lemma wf_lines_append: "wf_lines (xs @ ys) \<Longrightarrow> wf_lines xs \<and> wf_lines ys"
proof (induction xs rule: wf_lines.induct)
  case 1
  then show ?case by simp
next
  case (2 l)
  then show ?case by (cases ys) simp_all
next
  case (3 l m ls)
  then show ?case by simp
qed

lemma wf_lines_member: "wf_lines (concat gs) \<Longrightarrow> g \<in> set gs \<Longrightarrow> wf_lines g"
proof -
  assume wf: "wf_lines (concat gs)" and "g \<in> set gs"
  then obtain xs ys where "gs = xs @ g # ys" by (blast dest: split_list)
  then have "concat gs = concat xs @ (g @ concat ys)" by simp
  with wf have "wf_lines (concat xs @ (g @ concat ys))" by simp
  then have "wf_lines (g @ concat ys)" by (blast dest: wf_lines_append)
  then show ?thesis by (blast dest: wf_lines_append)
qed

lemma wf_lines_header: "wf_lines (h # ls) \<Longrightarrow> ls \<noteq> [] \<Longrightarrow> wf_lines g \<Longrightarrow> wf_lines (h # g)"
  by (cases ls; cases g) simp_all

lemma text_lines_readback:
  assumes "wf_lines ls" "CR \<notin> set (concat ls)"
  shows "text_lines (concat ls) = ls"
  using assms by (simp add: text_lines_def universal_newlines_id iter_lines_concat)

lemma text_lines_wf: "wf_lines (text_lines c)"
  by (simp add: text_lines_def wf_lines_iter_lines)

lemma text_lines_no_CR: "CR \<notin> set (concat (text_lines c))"
  unfolding text_lines_def concat_iter_lines by (rule universal_newlines_no_CR)


lemma is_line_nonempty: "wf_lines ls \<Longrightarrow> l \<in> set ls \<Longrightarrow> l \<noteq> []"
  by (induction ls rule: wf_lines.induct) (auto simp: is_line_def)

section \<open>The batches formed by the loop\<close>

lemma concat_group_lines: "concat (group_lines T cur acc ls) = acc @ ls"
  by (induction ls arbitrary: cur acc) auto

lemma group_lines_nonempty: "[] \<notin> set (group_lines T cur acc ls)"
  by (induction ls arbitrary: cur acc) auto

lemma size_lines_simps [simp]:
  "size_lines [] = 0" "size_lines (l # ls) = int (length l) + size_lines ls"
  "size_lines (xs @ ys) = size_lines xs + size_lines ys"
  by (simp_all add: size_lines_def)

lemma group_lines_bound:
  "cur = size_lines acc \<Longrightarrow> length acc \<le> 1 \<or> cur \<le> T \<Longrightarrow> g \<in> set (group_lines T cur acc ls)
     \<Longrightarrow> length g = 1 \<or> size_lines g \<le> T"
proof (induction ls arbitrary: cur acc)
  case Nil
  then show ?case by (cases acc) (auto split: if_splits)
next
  case (Cons l ls)
  show ?case
  proof (cases "cur + int (length l) > T \<and> acc \<noteq> []")
    case True
    with Cons.prems(3) have "g = acc \<or> g \<in> set (group_lines T (int (length l)) [l] ls)"
      by simp
    then show ?thesis
    proof
      assume "g = acc"
      with Cons.prems(1,2) True show ?thesis by (cases acc) auto
    next
      assume "g \<in> set (group_lines T (int (length l)) [l] ls)"
      then show ?thesis by (rule Cons.IH [rotated 2]) simp_all
    qed
  next
    case False
    with Cons.prems(3) have g: "g \<in> set (group_lines T (cur + int (length l)) (acc @ [l]) ls)"
      by auto
    from False Cons.prems(1,2) have "length (acc @ [l]) \<le> 1 \<or> cur + int (length l) \<le> T"
      by (cases acc) auto
    with g Cons.prems(1) show ?thesis by (intro Cons.IH [of "cur + int (length l)" "acc @ [l]"]) simp_all
  qed
qed

section \<open>The loop of split_file_by_lines, with and without its directory\<close>

lemma if_upd: "(\<lambda>a. if a = p then Some c else m a) = m(p \<mapsto> c)"
  by (rule ext) simp

lemma write_batch_eq:
  "write_batch d t st =
     (if writable (fs st) d t
      then Inr (st\<lparr>batch_files := batch_files st @ [batch_path d t (batch_number st)],
                  fs := (fs st)\<lparr>file_at := (file_at (fs st))
                           (batch_path d t (batch_number st) \<mapsto>
                              header_text (header st) @ concat (batch_lines st))\<rparr>\<rparr>)
      else Inl FileNotFoundError)"
  by (simp add: write_batch_def write_file_batch header_text_def Let_def)

lemma group_lines_Nil_iff: "group_lines T cur acc ls = [] \<longleftrightarrow> acc = [] \<and> ls = []"
  by (induction ls arbitrary: cur acc) auto

lemma lines_loop_writable:
  "writable (fs st) d t \<Longrightarrow> 0 < k \<Longrightarrow>
   finish_lines d t (for_lines (lines_step d t T) st (enumerate k ls)) =
     (Inr (batch_files st @ map fst (batch_writes d t (batch_number st)
             (map (\<lambda>g. header_text (header st) @ concat g)
                (group_lines T (current_batch_size st) (batch_lines st) ls)))),
      (fs st)\<lparr>file_at := write_all (file_at (fs st)) (batch_writes d t (batch_number st)
             (map (\<lambda>g. header_text (header st) @ concat g)
                (group_lines T (current_batch_size st) (batch_lines st) ls)))\<rparr>)"
proof (induction ls arbitrary: st k)
  case Nil
  then show ?case
    by (simp add: finish_lines_def write_batch_eq if_upd)
next
  case (Cons l ls)
  show ?case
  proof (cases "current_batch_size st + int (length l) > T \<and> batch_lines st \<noteq> []")
    case True
    let ?st' = "st\<lparr>batch_files := batch_files st @ [batch_path d t (batch_number st)],
                  fs := (fs st)\<lparr>file_at := (file_at (fs st))
                           (batch_path d t (batch_number st) \<mapsto>
                              header_text (header st) @ concat (batch_lines st))\<rparr>,
                  batch_number := batch_number st + 1,
                  current_batch_size := int (length l), batch_lines := [l]\<rparr>"
    have step: "lines_step d t T st (k, l) = Inr ?st'"
      using True Cons.prems by (simp add: lines_step_def write_batch_eq Let_def)
    have w: "writable (fs ?st') d t" using Cons.prems(1) by simp
    show ?thesis
      using True Cons.IH [OF w, of "Suc k"] by (simp add: step if_upd)
  next
    case False
    let ?st' = "st\<lparr>current_batch_size := current_batch_size st + int (length l),
                  batch_lines := batch_lines st @ [l]\<rparr>"
    have step: "lines_step d t T st (k, l) = Inr ?st'"
      using False Cons.prems by (auto simp add: lines_step_def Let_def)
    have w: "writable (fs ?st') d t" using Cons.prems(1) by simp
    show ?thesis
      using False Cons.IH [OF w, of "Suc k"] by (auto simp add: step if_upd)
  qed
qed

lemma lines_loop_blocked:
  "\<not> writable (fs st) d t \<Longrightarrow> 0 < k \<Longrightarrow>
   finish_lines d t (for_lines (lines_step d t T) st (enumerate k ls)) =
     (if group_lines T (current_batch_size st) (batch_lines st) ls = []
      then (Inr (batch_files st), fs st) else (Inl FileNotFoundError, fs st))"
proof (induction ls arbitrary: st k)
  case Nil
  then show ?case
    by (simp add: finish_lines_def write_batch_eq if_upd)
next
  case (Cons l ls)
  show ?case
  proof (cases "current_batch_size st + int (length l) > T \<and> batch_lines st \<noteq> []")
    case True
    have step: "lines_step d t T st (k, l) = Inl FileNotFoundError"
      using True Cons.prems by (simp add: lines_step_def write_batch_eq Let_def)
    show ?thesis
      using True by (simp add: step finish_lines_def)
  next
    case False
    let ?st' = "st\<lparr>current_batch_size := current_batch_size st + int (length l),
                  batch_lines := batch_lines st @ [l]\<rparr>"
    have step: "lines_step d t T st (k, l) = Inr ?st'"
      using False Cons.prems by (auto simp add: lines_step_def Let_def)
    have w: "\<not> writable (fs ?st') d t" using Cons.prems(1) by simp
    show ?thesis
      using False Cons.IH [OF w, of "Suc k"] by (auto simp add: step group_lines_Nil_iff)
  qed
qed

section \<open>What split_file_by_lines returns and writes\<close>

lemma split_lines_Nil: "split_lines d t T [] files = (Inr [], files)"
  by (simp add: split_lines_def finish_lines_def)

lemma split_lines_Cons:
  "split_lines d t T (h # ls) files =
     (if writable files d t
      then (Inr (map (batch_path d t) [1 ..< 1 + length (group_lines T 0 [] ls)]),
            files\<lparr>file_at := write_all (file_at files)
               (batch_writes d t 1 (map (\<lambda>g. h @ concat g) (group_lines T 0 [] ls)))\<rparr>)
      else if ls = [] then (Inr [], files)
      else (Inl FileNotFoundError, files))"
proof -
  let ?st = "\<lparr>batch_number = 1, current_batch_size = 0, batch_lines = [],
              header = Some h, batch_files = [], fs = files\<rparr>"
  have start: "split_lines d t T (h # ls) files =
          finish_lines d t (for_lines (lines_step d t T) ?st (enumerate 1 ls))"
    by (simp add: split_lines_def lines_step_def)
  show ?thesis
  proof (cases "writable files d t")
    case True
    then have "writable (fs ?st) d t" by simp
    from lines_loop_writable [OF this, of 1 T ls] True show ?thesis
      by (simp add: start header_text_def map_fst_batch_writes)
  next
    case False
    then have "\<not> writable (fs ?st) d t" by simp
    from lines_loop_blocked [OF this, of 1 T ls] False show ?thesis
      by (simp add: start group_lines_Nil_iff)
  qed
qed

lemma split_file_by_lines_eval:
  "split_file_by_lines self source_file batch_size_mb table_name files =
     (if \<not> path_exists files source_file then (Inl FileNotFoundError, files)
      else
        case file_at files source_file of
          None \<Rightarrow>
            (Inl IsADirectoryError, mkdir (joinpath (target_directory self) table_name) files)
        | Some content \<Rightarrow>
            (case text_lines content of
               [] \<Rightarrow> (Inr [], mkdir (joinpath (target_directory self) table_name) files)
             | h # ls \<Rightarrow>
                 if writable (mkdir (joinpath (target_directory self) table_name) files)
                      (joinpath (target_directory self) table_name) table_name
                 then
                   (Inr (map (batch_path (joinpath (target_directory self) table_name) table_name)
                           [1 ..< 1 + length (group_lines (batch_size_mb * 1024 * 1024) 0 [] ls)]),
                    (mkdir (joinpath (target_directory self) table_name) files)
                      \<lparr>file_at := write_all (file_at files)
                         (batch_writes (joinpath (target_directory self) table_name) table_name 1
                            (map (\<lambda>g. h @ concat g)
                               (group_lines (batch_size_mb * 1024 * 1024) 0 [] ls)))\<rparr>)
                 else if ls = []
                 then (Inr [], mkdir (joinpath (target_directory self) table_name) files)
                 else (Inl FileNotFoundError,
                       mkdir (joinpath (target_directory self) table_name) files)))"
  by (simp add: split_file_by_lines_def Let_def split_lines_Nil split_lines_Cons
           split: option.split list.split)

lemma file_exists: "file_at files p = Some c \<Longrightarrow> path_exists files p"
  by (simp add: path_exists_def)

lemma split_file_by_lines_missing:
  "\<not> path_exists files source_file \<Longrightarrow>
   split_file_by_lines self source_file batch_size_mb table_name files
     = (Inl FileNotFoundError, files)"
  by (simp add: split_file_by_lines_def)

lemma split_file_by_lines_no_lines:
  "file_at files source_file = Some content \<Longrightarrow> text_lines content = [] \<Longrightarrow>
   split_file_by_lines self source_file batch_size_mb table_name files
     = (Inr [], mkdir (joinpath (target_directory self) table_name) files)"
  by (simp add: split_file_by_lines_eval file_exists)

lemma split_file_by_lines_returned:
  assumes "file_at files source_file = Some content" and "text_lines content = h # ls"
    and "split_file_by_lines self source_file batch_size_mb table_name files = (Inr paths, files')"
  shows "paths = map (batch_path (joinpath (target_directory self) table_name) table_name)
             [1 ..< 1 + length (group_lines (batch_size_mb * 1024 * 1024) 0 [] ls)] \<and>
         file_at files' = write_all (file_at files)
           (batch_writes (joinpath (target_directory self) table_name) table_name 1
              (map (\<lambda>g. h @ concat g) (group_lines (batch_size_mb * 1024 * 1024) 0 [] ls))) \<and>
         dirs files' = dirs (mkdir (joinpath (target_directory self) table_name) files)"
  using assms
  by (auto simp add: split_file_by_lines_eval file_exists group_lines_Nil_iff split: if_splits)

lemma split_file_by_lines_plain:
  assumes "file_at files source_file = Some content" and "text_lines content = h # ls"
    and "CHR ''/'' \<notin> set table_name"
  shows "split_file_by_lines self source_file batch_size_mb table_name files =
     (Inr (map (batch_path (joinpath (target_directory self) table_name) table_name)
             [1 ..< 1 + length (group_lines (batch_size_mb * 1024 * 1024) 0 [] ls)]),
      (mkdir (joinpath (target_directory self) table_name) files)
        \<lparr>file_at := write_all (file_at files)
           (batch_writes (joinpath (target_directory self) table_name) table_name 1
              (map (\<lambda>g. h @ concat g) (group_lines (batch_size_mb * 1024 * 1024) 0 [] ls)))\<rparr>)"
  using assms by (simp add: split_file_by_lines_eval file_exists writable_mkdir)

lemma batch_read_back:
  assumes lines: "text_lines content = h # ls"
    and g: "g \<in> set (group_lines T 0 [] ls)"
  shows "text_lines (h @ concat g) = h # g \<and> raw_lines (h @ concat g) = h # g"
proof -
  have wf: "wf_lines (h # ls)" using text_lines_wf [of content] lines by simp
  have cat: "concat (group_lines T 0 [] ls) = ls" by (simp add: concat_group_lines)
  from wf have "wf_lines ls" by (rule wf_lines_Cons)
  then have "wf_lines (concat (group_lines T 0 [] ls))" by (simp only: cat)
  then have wfg: "wf_lines g" using g by (rule wf_lines_member)
  from g group_lines_nonempty [of T 0 "[]" ls] have "g \<noteq> []" by auto
  with g cat have "ls \<noteq> []" by auto
  with wf have wfh: "wf_lines (h # g)" using wfg by (rule wf_lines_header)
  from g have "set g \<subseteq> set (concat (group_lines T 0 [] ls))" by auto
  with cat have "set g \<subseteq> set ls" by simp
  then have "set (concat (h # g)) \<subseteq> set (concat (h # ls))" by auto
  moreover have "CR \<notin> set (concat (h # ls))" using text_lines_no_CR [of content] lines by simp
  ultimately have "CR \<notin> set (concat (h # g))" by blast
  with wfh have "text_lines (concat (h # g)) = h # g" by (rule text_lines_readback)
  moreover from wfh have "iter_lines (concat (h # g)) = h # g" by (rule iter_lines_concat)
  ultimately show ?thesis by (simp add: raw_lines_def)
qed

lemma read_batches:
  assumes lines: "text_lines content = h # ls"
    and fa: "file_at files' = write_all m (batch_writes d t 1
                 (map (\<lambda>g. h @ concat g) (group_lines T 0 [] ls)))"
  shows "map (read_text files') (map (batch_path d t) [1 ..< 1 + length (group_lines T 0 [] ls)])
           = map (\<lambda>g. Inr (h # g)) (group_lines T 0 [] ls)"
    and "map (read_raw files') (map (batch_path d t) [1 ..< 1 + length (group_lines T 0 [] ls)])
           = map (\<lambda>g. Inr (h # g)) (group_lines T 0 [] ls)"
    and "map (file_at files') (map (batch_path d t) [1 ..< 1 + length (group_lines T 0 [] ls)])
           = map (\<lambda>g. Some (h @ concat g)) (group_lines T 0 [] ls)"
proof -
  let ?gs = "group_lines T 0 [] ls"
  let ?cs = "map (\<lambda>g. h @ concat g) ?gs"
  let ?ps = "map (batch_path d t) [1 ..< 1 + length ?gs]"
  have rb: "map (file_at files') ?ps = map Some ?cs"
    unfolding fa using read_back_batch_writes [of m d t 1 ?cs] by (simp only: length_map)
  then show 3: "map (file_at files') ?ps = map (\<lambda>g. Some (h @ concat g)) ?gs"
    by (simp only: map_map comp_def)
  have "map (read_text files') ?ps
          = map (\<lambda>c. case c of None \<Rightarrow> Inl FileNotFoundError | Some c \<Rightarrow> Inr (text_lines c))
              (map (file_at files') ?ps)"
    by (simp only: map_map comp_def read_text_def)
  also have "\<dots>
          = map (\<lambda>c. case c of None \<Rightarrow> Inl FileNotFoundError | Some c \<Rightarrow> Inr (text_lines c))
              (map Some ?cs)"
    by (simp only: rb)
  also have "\<dots> = map (\<lambda>g. Inr (text_lines (h @ concat g))) ?gs"
    by (simp only: map_map comp_def option.case)
  also have "\<dots> = map (\<lambda>g. Inr (h # g)) ?gs"
    using batch_read_back [OF lines] by simp
  finally show "map (read_text files') ?ps = map (\<lambda>g. Inr (h # g)) ?gs" .
  have "map (read_raw files') ?ps
          = map (\<lambda>c. case c of None \<Rightarrow> Inl FileNotFoundError | Some c \<Rightarrow> Inr (raw_lines c))
              (map (file_at files') ?ps)"
    by (simp only: map_map comp_def read_raw_def)
  also have "\<dots>
          = map (\<lambda>c. case c of None \<Rightarrow> Inl FileNotFoundError | Some c \<Rightarrow> Inr (raw_lines c))
              (map Some ?cs)"
    by (simp only: rb)
  also have "\<dots> = map (\<lambda>g. Inr (raw_lines (h @ concat g))) ?gs"
    by (simp only: map_map comp_def option.case)
  also have "\<dots> = map (\<lambda>g. Inr (h # g)) ?gs"
    using batch_read_back [OF lines] by simp
  finally show "map (read_raw files') ?ps = map (\<lambda>g. Inr (h # g)) ?gs" .
qed

lemma batch_of_path:
  assumes f: "file_at files source_file = Some content"
    and lines: "text_lines content = h # ls"
    and split: "split_file_by_lines self source_file batch_size_mb table_name files
                  = (Inr paths, files')"
    and p: "p \<in> set paths"
  shows "\<exists>g \<in> set (group_lines (batch_size_mb * 1024 * 1024) 0 [] ls).
           file_at files' p = Some (h @ concat g) \<and> text_lines (h @ concat g) = h # g \<and>
           raw_lines (h @ concat g) = h # g"
proof -
  let ?d = "joinpath (target_directory self) table_name"
  let ?T = "batch_size_mb * 1024 * 1024"
  let ?gs = "group_lines ?T 0 [] ls"
  let ?cs = "map (\<lambda>g. h @ concat g) ?gs"
  let ?ps = "map (batch_path ?d table_name) [1 ..< 1 + length ?gs]"
  from split_file_by_lines_returned [OF f lines split]
  have paths: "paths = ?ps"
    and fa: "file_at files' = write_all (file_at files) (batch_writes ?d table_name 1 ?cs)"
    by simp_all
  have rb: "map (file_at files') ?ps = map (\<lambda>g. Some (h @ concat g)) ?gs"
    using lines fa by (rule read_batches(3))
  have len: "length ?ps = length ?gs" by (simp only: length_map length_upt add_diff_cancel_left')
  from p paths obtain j where j: "j < length ?ps" and pj: "p = ?ps ! j"
    by (auto simp only: in_set_conv_nth)
  from j have "map (file_at files') ?ps ! j = file_at files' (?ps ! j)" by (rule nth_map)
  moreover from j len have "map (\<lambda>g. Some (h @ concat g)) ?gs ! j = Some (h @ concat (?gs ! j))"
    by simp
  ultimately have fp: "file_at files' p = Some (h @ concat (?gs ! j))" using rb pj by simp
  from j len have g: "?gs ! j \<in> set ?gs" by simp
  from batch_read_back [OF lines g] fp g show ?thesis by blast
qed

lemma group_lines_non_positive:
  "T \<le> 0 \<Longrightarrow> 0 \<le> cur \<Longrightarrow> [] \<notin> set ls \<Longrightarrow>
   group_lines T cur acc ls = (if acc = [] then [] else [acc]) @ map (\<lambda>l. [l]) ls"
proof (induction ls arbitrary: cur acc)
  case Nil
  show ?case by simp
next
  case (Cons l ls)
  from Cons.prems have l: "0 < int (length l)" and ls: "[] \<notin> set ls" by auto
  show ?case
  proof (cases "acc = []")
    case True
    with Cons.prems l Cons.IH [of "cur + int (length l)" "[l]"] ls show ?thesis by simp
  next
    case False
    from Cons.prems l have "cur + int (length l) > T" by linarith
    with False l Cons.prems(1) Cons.IH [of "int (length l)" "[l]"] ls show ?thesis by simp
  qed
qed

section \<open>The first line and universal newlines\<close>

lemma universal_newlines_Cons: "c \<noteq> CR \<Longrightarrow> universal_newlines (c # s) = c # universal_newlines s"
  by (cases s) simp_all

lemma universal_newlines_prefix:
  "CR \<notin> set l \<Longrightarrow> universal_newlines (l @ r) = l @ universal_newlines r"
  by (induction l) (simp_all add: universal_newlines_Cons [OF not_sym])

lemma wf_lines_first: "wf_lines (l # ls) \<Longrightarrow> is_line l \<and> (ls \<noteq> [] \<longrightarrow> last l = LF)"
  by (cases ls) simp_all

lemma first_line_unchanged:
  assumes "CR \<notin> set (hd (iter_lines content))"
  shows "hd (iter_lines (universal_newlines content)) = hd (iter_lines content)"
proof (cases "iter_lines content")
  case Nil
  then have "concat (iter_lines content) = []" by simp
  then have "content = []" by (simp only: concat_iter_lines)
  then show ?thesis by simp
next
  case (Cons l rest)
  have wf: "wf_lines (l # rest)" using wf_lines_iter_lines [of content] Cons by simp
  then have l: "is_line l" and t: "rest \<noteq> [] \<longrightarrow> last l = LF"
    by (simp_all add: wf_lines_first)
  from assms Cons have cr: "CR \<notin> set l" by simp
  have "content = l @ concat rest" using concat_iter_lines [of content] Cons by simp
  then have un: "universal_newlines content = l @ universal_newlines (concat rest)"
    using cr by (simp add: universal_newlines_prefix)
  have "hd (iter_lines (l @ universal_newlines (concat rest))) = l"
  proof (cases "rest = []")
    case True
    with l show ?thesis by (simp add: iter_lines_single)
  next
    case False
    with t have "last l = LF" by simp
    with l show ?thesis by (simp add: iter_lines_terminated)
  qed
  with un Cons show ?thesis by simp
qed

section \<open>Evaluating the splitter on a given file system\<close>

lemmas eval_simps =
  split_file_by_lines_eval path_exists_def writable_def batch_dir_def dirname_def ancestors_def
  mkdir_def text_lines_def raw_lines_def LF_def CR_def batch_path_def joinpath_def
  str_1 str_2 str_3 str_Suc if_upd

section \<open>The loop follows the flush-before-append rule\<close>

lemma size_lines_zero: "[] \<notin> set ls \<Longrightarrow> (size_lines ls = 0) = (ls = [])"
proof (cases ls)
  case Nil
  then show ?thesis by (simp add: size_lines_def)
next
  case (Cons a list)
  assume "[] \<notin> set ls"
  with Cons have "a \<noteq> []" by auto
  then have "1 \<le> length a" by (cases a) simp_all
  with Cons show ?thesis by (simp add: size_lines_def)
qed

lemma step_agrees:
  assumes "running_count_ok st"
  shows "lines_step d t T st (k, line) = spec_step d t T st (k, line)"
proof -
  from assms have "(batch_lines st \<noteq> []) = (current_batch_size st \<noteq> 0)"
    by (simp add: running_count_ok_def size_lines_zero)
  then show ?thesis
    by (simp add: lines_step_def spec_step_def flush_before_append_def Let_def conj_commute)
qed

lemma step_keeps_count:
  assumes "running_count_ok st" and "line \<noteq> []"
    and "lines_step d t T st (k, line) = Inr st'"
  shows "running_count_ok st'"
  using assms
  by (auto simp add: running_count_ok_def lines_step_def write_batch_eq Let_def size_lines_def
        split: if_splits)

lemma loops_agree:
  "running_count_ok st \<Longrightarrow> [] \<notin> snd ` set xs \<Longrightarrow>
   for_lines (lines_step d t T) st xs = for_lines (spec_step d t T) st xs"
proof (induction xs arbitrary: st)
  case Nil
  show ?case by simp
next
  case (Cons x xs)
  obtain k line where x: "x = (k, line)" by (cases x)
  from Cons.prems x have ne: "line \<noteq> []" and rest: "[] \<notin> snd ` set xs" by auto
  have same: "spec_step d t T st (k, line) = lines_step d t T st (k, line)"
    by (rule step_agrees [OF Cons.prems(1), symmetric])
  show ?case
  proof (cases "lines_step d t T st (k, line)")
    case (Inl e)
    then show ?thesis by (simp add: x same)
  next
    case (Inr st')
    have ok: "running_count_ok st'"
      using Cons.prems(1) ne Inr by (rule step_keeps_count)
    have "for_lines (lines_step d t T) st' xs = for_lines (spec_step d t T) st' xs"
      using ok rest by (rule Cons.IH)
    then show ?thesis by (simp add: x same Inr)
  qed
qed

lemma text_lines_nonempty: "[] \<notin> set (text_lines content)"
  using text_lines_wf [of content] by (auto dest: is_line_nonempty)

lemma split_lines_follows_rule:
  "split_lines d t T (text_lines content) files = spec_split_lines d t T (text_lines content) files"
proof -
  let ?st0 = "\<lparr>batch_number = 1, current_batch_size = 0, batch_lines = [],
                 header = None, batch_files = [], fs = files\<rparr>"
  have "running_count_ok ?st0" by (simp add: running_count_ok_def size_lines_def)
  moreover have "snd ` set (enumerate 0 (text_lines content)) = set (text_lines content)"
    by (simp only: set_map [symmetric] map_snd_enumerate)
  then have "[] \<notin> snd ` set (enumerate 0 (text_lines content))"
    using text_lines_nonempty [of content] by simp
  ultimately have "for_lines (lines_step d t T) ?st0 (enumerate 0 (text_lines content))
                     = for_lines (spec_step d t T) ?st0 (enumerate 0 (text_lines content))"
    by (rule loops_agree)
  then show ?thesis by (simp add: split_lines_def spec_split_lines_def)
qed

lemma scenario_groups:
  assumes "0 < u" "length l1 = 40 * u" "length l2 = 40 * u" "length l3 = 40 * u"
    "length l4 = 40 * u" "length l5 = 40 * u"
  shows "group_lines (100 * int u) 0 [] [l1, l2, l3, l4, l5] = [[l1, l2], [l3, l4], [l5]]"
  using assms by simp

lemma scenario_writes:
  "write_all m (batch_writes d t 1 [c1, c2, c3])
     = m(batch_path d t 1 \<mapsto> c1, batch_path d t 2 \<mapsto> c2, batch_path d t 3 \<mapsto> c3)"
  by (simp add: write_all_def batch_writes_def upt_conv_Cons numeral_2_eq_2 numeral_3_eq_3
        del: upt_Suc)

lemma scenario_batches:
  assumes w: "writable files d t"
    and len: "0 < u" "length l1 = 40 * u" "length l2 = 40 * u" "length l3 = 40 * u"
    "length l4 = 40 * u" "length l5 = 40 * u"
  shows "split_lines d t (100 * int u) [h, l1, l2, l3, l4, l5] files =
     (Inr [batch_path d t 1, batch_path d t 2, batch_path d t 3],
      files\<lparr>file_at := (file_at files)
              (batch_path d t 1 \<mapsto> h @ l1 @ l2,
               batch_path d t 2 \<mapsto> h @ l3 @ l4,
               batch_path d t 3 \<mapsto> h @ l5)\<rparr>)"
proof -
  have n: "[1 ..< 1 + length [[l1, l2], [l3, l4], [l5]]] = [1, 2, 3::nat]"
    by (simp add: upt_conv_Cons del: upt_Suc)
  have m: "map (\<lambda>g. h @ concat g) [[l1, l2], [l3, l4], [l5]] = [h @ l1 @ l2, h @ l3 @ l4, h @ l5]"
    by simp
  show ?thesis
    unfolding split_lines_Cons scenario_groups [OF len] n m scenario_writes
    using w by simp
qed

lemma scenario_megabytes:
  assumes f: "file_at files source_file = Some content"
    and plain: "CHR ''/'' \<notin> set table_name"
    and lines: "text_lines content = [h, l1, l2, l3, l4, l5]"
    and len: "length l1 = 40 * 1048576" "length l2 = 40 * 1048576" "length l3 = 40 * 1048576"
      "length l4 = 40 * 1048576" "length l5 = 40 * 1048576"
  shows "split_file_by_lines self source_file 100 table_name files =
     (Inr [batch_path (joinpath (target_directory self) table_name) table_name 1,
           batch_path (joinpath (target_directory self) table_name) table_name 2,
           batch_path (joinpath (target_directory self) table_name) table_name 3],
      (mkdir (joinpath (target_directory self) table_name) files)
        \<lparr>file_at := (file_at files)
           (batch_path (joinpath (target_directory self) table_name) table_name 1 \<mapsto> h @ l1 @ l2,
            batch_path (joinpath (target_directory self) table_name) table_name 2 \<mapsto> h @ l3 @ l4,
            batch_path (joinpath (target_directory self) table_name) table_name 3 \<mapsto> h @ l5)\<rparr>)"
proof -
  let ?d = "joinpath (target_directory self) table_name"
  have u: "(0::nat) < 1048576" by simp
  have T: "(100::int) * 1024 * 1024 = 100 * int 1048576" by simp
  have n: "[1 ..< 1 + length [[l1, l2], [l3, l4], [l5]]] = [1, 2, 3::nat]"
    by (simp add: upt_conv_Cons del: upt_Suc)
  have m: "map (\<lambda>g. h @ concat g) [[l1, l2], [l3, l4], [l5]] = [h @ l1 @ l2, h @ l3 @ l4, h @ l5]"
    by simp
  show ?thesis
    unfolding split_file_by_lines_plain [where files = files and source_file = source_file,
                OF f lines plain] T scenario_groups [OF u len] n m scenario_writes
    by simp
qed

lemma raw_is_text: "CR \<notin> set content \<Longrightarrow> raw_lines content = text_lines content"
  by (simp add: raw_lines_def text_lines_def universal_newlines_id)

lemma batch_path_empty_label:
  "batch_path (joinpath target []) [] = (\<lambda>n. target @ ''/_batch_'' @ str n @ ''.csv'')"
  by (rule ext) (simp add: batch_path_def joinpath_def)

section \<open>Chunks of bytes\<close>

lemma chunks_empty [simp]: "chunks n [] = []" "chunks 0 s = []"
  by (simp_all add: chunks.simps)

lemma chunks_step: "0 < n \<Longrightarrow> s \<noteq> [] \<Longrightarrow> chunks n s = take n s # chunks n (drop n s)"
  by (subst chunks.simps) simp

lemma concat_chunks: "0 < n \<Longrightarrow> concat (chunks n s) = s"
proof (induction n s rule: chunks.induct)
  case (1 n s)
  show ?case
  proof (cases "s = []")
    case True
    then show ?thesis by simp
  next
    case False
    with "1.prems" "1.IH" show ?thesis by (simp add: chunks_step)
  qed
qed

lemma ceil_div_step:
  assumes n: "0 < (n::nat)" and m: "0 < m"
  shows "(m + n - 1) div n = Suc ((m - n + n - 1) div n)"
proof (cases "n \<le> m")
  case True
  then have e: "m - n + n - 1 = m - 1" by simp
  from m have "m + n - 1 = (m - 1) + n" by simp
  then have "(m + n - 1) div n = ((m - 1) + n) div n" by (rule arg_cong)
  also have "\<dots> = Suc ((m - 1) div n)" using n by (simp only: div_add_self2)
  finally show ?thesis by (simp only: e)
next
  case False
  then have e: "m - n + n - 1 = n - 1" by simp
  from n have z: "(n - 1) div n = 0" by simp
  from False m have "m + n - 1 = (m - 1) + n" and lt: "m - 1 < n" by simp_all
  then have "(m + n - 1) div n = ((m - 1) + n) div n" by (simp only:)
  also have "\<dots> = Suc ((m - 1) div n)" using n by (simp only: div_add_self2)
  also have "(m - 1) div n = 0" using lt by simp
  finally show ?thesis by (simp only: e z)
qed

lemma length_chunks: "0 < n \<Longrightarrow> length (chunks n s) = (length s + n - 1) div n"
proof (induction n s rule: chunks.induct)
  case (1 n s)
  show ?case
  proof (cases "s = []")
    case True
    with "1.prems" show ?thesis by simp
  next
    case False
    with "1.prems" have "\<not> (n = 0 \<or> s = [])" by simp
    then have ih: "length (chunks n (drop n s)) = (length (drop n s) + n - 1) div n"
      using "1.prems" by (rule "1.IH")
    from False have m: "0 < length s" by simp
    have "length (chunks n s) = Suc (length (chunks n (drop n s)))"
      using "1.prems" False by (simp add: chunks_step)
    also have "\<dots> = Suc ((length s - n + n - 1) div n)"
      by (simp only: ih length_drop)
    also have "\<dots> = (length s + n - 1) div n"
      using ceil_div_step [OF "1.prems" m] by (rule sym)
    finally show ?thesis .
  qed
qed

lemma chunks_nonempty: "[] \<notin> set (chunks n s)"
proof (induction n s rule: chunks.induct)
  case (1 n s)
  show ?case
  proof (cases "n = 0 \<or> s = []")
    case True
    then show ?thesis by auto
  next
    case False
    with "1.IH" show ?thesis by (simp add: chunks_step)
  qed
qed

lemma split_file_loop_stop:
  "read n s = Inr ([], s') \<Longrightarrow> split_file_loop d t n s k bf files = (Inr bf, files)"
  by (subst split_file_loop.simps) simp

lemma split_file_loop_step:
  "read n s = Inr (c, s') \<Longrightarrow> c \<noteq> [] \<Longrightarrow> writable files d t \<Longrightarrow>
   split_file_loop d t n s k bf files =
     split_file_loop d t n s' (k + 1) (bf @ [batch_path d t k])
       (files\<lparr>file_at := (file_at files)(batch_path d t k \<mapsto> c)\<rparr>)"
  by (subst split_file_loop.simps) (simp add: Let_def write_file_batch)

lemma split_file_loop_blocked:
  "read n s = Inr (c, s') \<Longrightarrow> c \<noteq> [] \<Longrightarrow> \<not> writable files d t \<Longrightarrow>
   split_file_loop d t n s k bf files = (Inl FileNotFoundError, files)"
  by (subst split_file_loop.simps) (simp add: Let_def write_file_batch)

lemma split_file_loop_chunks:
  "0 \<le> n \<Longrightarrow> writable files d t \<Longrightarrow>
   split_file_loop d t n s k bf files =
     (Inr (bf @ map fst (batch_writes d t k (chunks (nat n) s))),
      files\<lparr>file_at := write_all (file_at files) (batch_writes d t k (chunks (nat n) s))\<rparr>)"
proof (induction "nat n" s arbitrary: k bf files rule: chunks.induct)
  case (1 s)
  have r: "read n s = Inr (take (nat n) s, drop (nat n) s)"
    using "1.prems" by (simp add: read_def)
  show ?case
  proof (cases "nat n = 0 \<or> s = []")
    case True
    then have e: "take (nat n) s = []" and ch: "chunks (nat n) s = []" by auto
    from r have "read n s = Inr ([], drop (nat n) s)" by (simp only: e)
    then have "split_file_loop d t n s k bf files = (Inr bf, files)"
      by (rule split_file_loop_stop)
    then show ?thesis by (simp add: ch batch_writes_def write_all_def)
  next
    case False
    then have pos: "0 < nat n" and ne: "s \<noteq> []" by simp_all
    then have c: "take (nat n) s \<noteq> []" by simp
    let ?files' = "files\<lparr>file_at := (file_at files)(batch_path d t k \<mapsto> take (nat n) s)\<rparr>"
    have w: "writable ?files' d t" using "1.prems"(2) by simp
    have "split_file_loop d t n s k bf files =
            split_file_loop d t n (drop (nat n) s) (k + 1) (bf @ [batch_path d t k]) ?files'"
      using r c "1.prems"(2) by (rule split_file_loop_step)
    also have "\<dots> =
      (Inr ((bf @ [batch_path d t k]) @ map fst (batch_writes d t (k + 1) (chunks (nat n) (drop (nat n) s)))),
       ?files'\<lparr>file_at := write_all (file_at ?files')
         (batch_writes d t (k + 1) (chunks (nat n) (drop (nat n) s)))\<rparr>)"
      using False "1.prems"(1) w by (intro "1.hyps") simp_all
    finally show ?thesis by (simp add: chunks_step [OF pos ne])
  qed
qed

lemma split_file_plain:
  assumes f: "file_at files source_file = Some content" and pos: "0 \<le> batch_size_mb"
    and plain: "CHR ''/'' \<notin> set table_name"
  shows "split_file self source_file batch_size_mb table_name files =
     (Inr (map (batch_path (joinpath (target_directory self) table_name) table_name)
             [1 ..< 1 + length (chunks (nat (batch_size_mb * 1024 * 1024)) content)]),
      (mkdir (joinpath (target_directory self) table_name) files)
        \<lparr>file_at := write_all (file_at files)
           (batch_writes (joinpath (target_directory self) table_name) table_name 1
              (chunks (nat (batch_size_mb * 1024 * 1024)) content))\<rparr>)"
proof -
  let ?n = "batch_size_mb * 1024 * 1024"
  let ?d = "joinpath (target_directory self) table_name"
  let ?cs = "chunks (nat ?n) content"
  from pos have n: "0 \<le> ?n" by simp
  have w: "writable (mkdir ?d files) ?d table_name" using plain by (rule writable_mkdir)
  have "split_file self source_file batch_size_mb table_name files
          = split_file_loop ?d table_name ?n content 1 [] (mkdir ?d files)"
    using f by (simp add: split_file_def file_exists Let_def)
  also have "\<dots> = (Inr ([] @ map fst (batch_writes ?d table_name 1 ?cs)),
       (mkdir ?d files)\<lparr>file_at := write_all (file_at (mkdir ?d files))
                           (batch_writes ?d table_name 1 ?cs)\<rparr>)"
    using n w by (rule split_file_loop_chunks)
  finally show ?thesis
    by (simp only: append_Nil map_fst_batch_writes mkdir_simps)
qed

lemma split_file_eval:
  "split_file self source_file batch_size_mb table_name files =
     (if \<not> path_exists files source_file then (Inl FileNotFoundError, files)
      else case file_at files source_file of
        None \<Rightarrow> (Inl IsADirectoryError, mkdir (joinpath (target_directory self) table_name) files)
      | Some content \<Rightarrow>
          split_file_loop (joinpath (target_directory self) table_name) table_name
            (batch_size_mb * 1024 * 1024) content 1 []
            (mkdir (joinpath (target_directory self) table_name) files))"
  by (simp add: split_file_def Let_def split: option.splits)

section \<open>The loop of split_multiple_files\<close>

lemma split_file_by_lines_paths_exist:
  assumes "split_file_by_lines self source_file batch_size_mb table_name files = (Inr paths, files')"
    and "p \<in> set paths"
  shows "file_at files' p \<noteq> None"
proof (cases "file_at files source_file")
  case None
  with assms(1) show ?thesis by (simp add: split_file_by_lines_eval split: if_splits)
next
  case (Some content)
  show ?thesis
  proof (cases "text_lines content")
    case Nil
    with Some assms show ?thesis by (simp add: split_file_by_lines_no_lines)
  next
    case (Cons h ls)
    let ?ws = "batch_writes (joinpath (target_directory self) table_name) table_name 1
                 (map (\<lambda>g. h @ concat g) (group_lines (batch_size_mb * 1024 * 1024) 0 [] ls))"
    note r = split_file_by_lines_returned
               [where files = files and source_file = source_file, OF Some Cons assms(1)]
    from r have "paths = map fst ?ws" by (simp only: map_fst_batch_writes length_map)
    with assms(2) have "p \<in> fst ` set ?ws" by simp
    then have "write_all (file_at files) ?ws p \<noteq> None" by (rule write_all_dom)
    with r show ?thesis by simp
  qed
qed

lemma batch_details_ok:
  "\<forall>p \<in> set ps. file_at files p \<noteq> None \<Longrightarrow> \<exists>ds. batch_details files ps = Inr ds"
  by (induction ps) (auto simp: get_file_size_def)

lemma create_batch_summary_ok:
  "\<forall>p \<in> set ps. file_at files p \<noteq> None \<Longrightarrow> \<exists>s. create_batch_summary files ps = Inr s"
  using batch_details_ok [of ps files] by (auto simp: create_batch_summary_def)

lemma split_multiple_step:
  "split_multiple_loop sp ((source_file, batch_size_mb, table_name) # rest) results files =
     split_multiple_loop sp rest
       (AList.update table_name
          (outcome (fst (split_file_by_lines sp source_file batch_size_mb table_name files)))
          results)
       (snd (split_file_by_lines sp source_file batch_size_mb table_name files))"
proof (cases "split_file_by_lines sp source_file batch_size_mb table_name files")
  case (Pair r files')
  show ?thesis
  proof (cases r)
    case (Inl e)
    with Pair show ?thesis by (simp add: outcome_def)
  next
    case (Inr paths)
    with Pair have "\<forall>p \<in> set paths. file_at files' p \<noteq> None"
      by (auto dest: split_file_by_lines_paths_exist)
    then obtain s where "create_batch_summary files' paths = Inr s"
      by (blast dest: create_batch_summary_ok)
    with Pair Inr show ?thesis by (simp add: outcome_def)
  qed
qed

lemma split_multiple_append:
  "split_multiple_loop sp (pre @ rest) results files =
     split_multiple_loop sp rest (fst (split_multiple_loop sp pre results files))
       (snd (split_multiple_loop sp pre results files))"
proof (induction pre arbitrary: results files)
  case Nil
  show ?case by simp
next
  case (Cons c pre)
  obtain source_file batch_size_mb table_name where c: "c = (source_file, batch_size_mb, table_name)"
    by (cases c)
  show ?case unfolding c append_Cons split_multiple_step by (rule Cons.IH)
qed

lemma label_triple [simp]: "label (source_file, batch_size_mb, table_name) = table_name"
  by (simp add: label_def)

lemma split_multiple_keys:
  "distinct (map label cfgs) \<Longrightarrow> set (map label cfgs) \<inter> set (map fst results) = {} \<Longrightarrow>
   map fst (fst (split_multiple_loop sp cfgs results files)) = map fst results @ map label cfgs"
proof (induction cfgs arbitrary: results files)
  case Nil
  show ?case by simp
next
  case (Cons c cfgs)
  obtain source_file batch_size_mb table_name where c: "c = (source_file, batch_size_mb, table_name)"
    by (cases c)
  let ?v = "outcome (fst (split_file_by_lines sp source_file batch_size_mb table_name files))"
  let ?files = "snd (split_file_by_lines sp source_file batch_size_mb table_name files)"
  let ?r = "AList.update table_name ?v results"
  from Cons.prems c have new: "table_name \<notin> set (map fst results)"
    and d: "distinct (map label cfgs)" and t: "table_name \<notin> set (map label cfgs)"
    and dis: "set (map label cfgs) \<inter> set (map fst results) = {}"
    by auto
  from new have keys: "map fst ?r = map fst results @ [table_name]"
    by (simp add: update_keys)
  with t dis have "set (map label cfgs) \<inter> set (map fst ?r) = {}" by auto
  with d have "map fst (fst (split_multiple_loop sp cfgs ?r ?files)) = map fst ?r @ map label cfgs"
    by (rule Cons.IH)
  then show ?case unfolding c split_multiple_step by (simp add: keys)
qed

lemma split_multiple_other:
  "k \<notin> set (map label cfgs) \<Longrightarrow>
   map_of (fst (split_multiple_loop sp cfgs results files)) k = map_of results k"
proof (induction cfgs arbitrary: results files)
  case Nil
  show ?case by simp
next
  case (Cons c cfgs)
  obtain source_file batch_size_mb table_name where c: "c = (source_file, batch_size_mb, table_name)"
    by (cases c)
  from Cons.prems c have ne: "k \<noteq> table_name" and k: "k \<notin> set (map label cfgs)"
    by auto
  show ?case unfolding c split_multiple_step
    using ne by (simp add: Cons.IH [OF k] update_conv')
qed

lemma split_multiple_at:
  assumes d: "distinct (map label (pre @ (source_file, batch_size_mb, table_name) # post))"
  shows "map_of (fst (split_multiple_loop sp (pre @ (source_file, batch_size_mb, table_name) # post)
                        results files)) table_name
     = Some (outcome (fst (split_file_by_lines sp source_file batch_size_mb table_name
                             (snd (split_multiple_loop sp pre results files)))))"
proof -
  from d have t: "table_name \<notin> set (map label post)" by simp
  show ?thesis
    unfolding split_multiple_append [of sp pre] split_multiple_step
    by (simp add: split_multiple_other [OF t] update_conv')
qed

lemmas planner_eval =
  split_multiple_files_def FileSplitter_init_def create_batch_summary_def get_file_size_def
  Let_def eval_simps

section \<open>Properties of split_file_by_lines\<close>








text \<open>
  C9. As stated the property fails from the error to the missing source: the code
  makes the directory \<^verbatim>\<open>target/label\<close> and opens the batch files at
  \<^verbatim>\<open>target/label/label_batch_n.csv\<close>, so with the label \<^verbatim>\<open>a/b\<close> the first
  batch file is to be opened in the directory \<^verbatim>\<open>out/a/b/a\<close>, which has not been
  made, and the call raises FileNotFoundError although the source exists.
\<close>

theorem not_found_counterexample:
  "file_at \<lparr>file_at = [''data.csv'' \<mapsto> ''a,b'' @ [LF] @ ''1,2'' @ [LF]], dirs = {}\<rparr> ''data.csv''
     = Some (''a,b'' @ [LF] @ ''1,2'' @ [LF]) \<and>
   path_exists \<lparr>file_at = [''data.csv'' \<mapsto> ''a,b'' @ [LF] @ ''1,2'' @ [LF]], dirs = {}\<rparr>
     ''data.csv'' \<and>
   fst (split_file_by_lines \<lparr>target_directory = ''out''\<rparr> ''data.csv'' 1 ''a/b''
         \<lparr>file_at = [''data.csv'' \<mapsto> ''a,b'' @ [LF] @ ''1,2'' @ [LF]], dirs = {}\<rparr>)
     = Inl FileNotFoundError"
  by (simp add: eval_simps)

text \<open>
  C9, amended. split_file_by_lines raises FileNotFoundError whenever the source path
  does not exist, and then the file system is unchanged. When the source path exists
  and the label contains no slash, it does not raise FileNotFoundError. Whenever it
  raises FileNotFoundError, for whichever reason, no file has been written.
\<close>

theorem not_found:
  "(\<not> path_exists files source_file \<longrightarrow>
      split_file_by_lines self source_file batch_size_mb table_name files
        = (Inl FileNotFoundError, files)) \<and>
   (path_exists files source_file \<and> CHR ''/'' \<notin> set table_name \<longrightarrow>
      fst (split_file_by_lines self source_file batch_size_mb table_name files)
        \<noteq> Inl FileNotFoundError) \<and>
   (fst (split_file_by_lines self source_file batch_size_mb table_name files)
        = Inl FileNotFoundError \<longrightarrow>
      file_at (snd (split_file_by_lines self source_file batch_size_mb table_name files))
        = file_at files)"
  by (auto simp add: split_file_by_lines_eval writable_mkdir split: option.splits list.splits)

theorem not_found_witness:
  "\<not> path_exists \<lparr>file_at = [''data.csv'' \<mapsto> ''a,b'' @ [LF] @ ''1,2'' @ [LF]], dirs = {}\<rparr>
       ''other.csv'' \<and>
   split_file_by_lines \<lparr>target_directory = ''out''\<rparr> ''other.csv'' 1 ''t''
       \<lparr>file_at = [''data.csv'' \<mapsto> ''a,b'' @ [LF] @ ''1,2'' @ [LF]], dirs = {}\<rparr>
     = (Inl FileNotFoundError,
        \<lparr>file_at = [''data.csv'' \<mapsto> ''a,b'' @ [LF] @ ''1,2'' @ [LF]], dirs = {}\<rparr>) \<and>
   path_exists \<lparr>file_at = [''data.csv'' \<mapsto> ''a,b'' @ [LF] @ ''1,2'' @ [LF]], dirs = {}\<rparr>
       ''data.csv'' \<and>
   CHR ''/'' \<notin> set ''t'' \<and>
   fst (split_file_by_lines \<lparr>target_directory = ''out''\<rparr> ''data.csv'' 1 ''t''
       \<lparr>file_at = [''data.csv'' \<mapsto> ''a,b'' @ [LF] @ ''1,2'' @ [LF]], dirs = {}\<rparr>)
     \<noteq> Inl FileNotFoundError \<and>
   fst (split_file_by_lines \<lparr>target_directory = ''out''\<rparr> ''data.csv'' 1 ''a/b''
       \<lparr>file_at = [''data.csv'' \<mapsto> ''a,b'' @ [LF] @ ''1,2'' @ [LF]], dirs = {}\<rparr>)
     = Inl FileNotFoundError \<and>
   file_at (snd (split_file_by_lines \<lparr>target_directory = ''out''\<rparr> ''data.csv'' 1 ''a/b''
       \<lparr>file_at = [''data.csv'' \<mapsto> ''a,b'' @ [LF] @ ''1,2'' @ [LF]], dirs = {}\<rparr>))
     = [''data.csv'' \<mapsto> ''a,b'' @ [LF] @ ''1,2'' @ [LF]]"
proof -
  let ?files = "\<lparr>file_at = [''data.csv'' \<mapsto> ''a,b'' @ [LF] @ ''1,2'' @ [LF]], dirs = {}\<rparr>"
  let ?sp = "\<lparr>target_directory = ''out''\<rparr>"
  have a: "\<not> path_exists ?files ''other.csv''" by (simp add: path_exists_def)
  have b: "path_exists ?files ''data.csv''" by (simp add: path_exists_def)
  have c: "CHR ''/'' \<notin> set ''t''" by simp
  have d: "fst (split_file_by_lines ?sp ''data.csv'' 1 ''a/b'' ?files) = Inl FileNotFoundError"
    by (simp add: eval_simps)
  have e: "file_at ?files = [''data.csv'' \<mapsto> ''a,b'' @ [LF] @ ''1,2'' @ [LF]]" by simp
  have 1: "split_file_by_lines ?sp ''other.csv'' 1 ''t'' ?files = (Inl FileNotFoundError, ?files)"
    by (rule not_found [of ?files "''other.csv''" ?sp 1 "''t''", THEN conjunct1, THEN mp, OF a])
  have 2: "fst (split_file_by_lines ?sp ''data.csv'' 1 ''t'' ?files) \<noteq> Inl FileNotFoundError"
    by (rule not_found [of ?files "''data.csv''" ?sp 1 "''t''", THEN conjunct2, THEN conjunct1,
          THEN mp, OF conjI [OF b c]])
  have 3: "file_at (snd (split_file_by_lines ?sp ''data.csv'' 1 ''a/b'' ?files))
             = [''data.csv'' \<mapsto> ''a,b'' @ [LF] @ ''1,2'' @ [LF]]"
    using not_found [of ?files "''data.csv''" ?sp 1 "''a/b''", THEN conjunct2, THEN conjunct2,
          THEN mp, OF d] unfolding e .
  show ?thesis using a 1 b c 2 d 3 by (intro conjI)
qed

text \<open>
  C2. As stated, with the first line compared byte for byte, the property fails: text
  mode hands the program every line terminator as a line feed, so a source whose first
  line ends in carriage return and line feed gets batch files whose first line ends in a
  line feed alone.
\<close>

theorem header_bytes_counterexample:
  "fst (split_file_by_lines \<lparr>target_directory = ''out''\<rparr> ''data.csv'' 1 ''t''
         \<lparr>file_at = [''data.csv'' \<mapsto> ''a,b'' @ [CR, LF] @ ''1,2'' @ [CR, LF]], dirs = {}\<rparr>)
     = Inr [''out/t/t_batch_1.csv''] \<and>
   file_at (snd (split_file_by_lines \<lparr>target_directory = ''out''\<rparr> ''data.csv'' 1 ''t''
         \<lparr>file_at = [''data.csv'' \<mapsto> ''a,b'' @ [CR, LF] @ ''1,2'' @ [CR, LF]], dirs = {}\<rparr>))
       ''out/t/t_batch_1.csv''
     = Some (''a,b'' @ [LF] @ ''1,2'' @ [LF]) \<and>
   hd (raw_lines (''a,b'' @ [LF] @ ''1,2'' @ [LF])) = ''a,b'' @ [LF] \<and>
   hd (raw_lines (''a,b'' @ [CR, LF] @ ''1,2'' @ [CR, LF])) = ''a,b'' @ [CR, LF] \<and>
   hd (raw_lines (''a,b'' @ [LF] @ ''1,2'' @ [LF]))
     \<noteq> hd (raw_lines (''a,b'' @ [CR, LF] @ ''1,2'' @ [CR, LF]))"
  by (simp add: eval_simps)

text \<open>
  C2, amended. The first line of every batch file equals the first line of the source as
  text mode reads both; the two are also equal byte for byte whenever the first line of
  the source contains no carriage return.
\<close>

theorem header_first_line:
  assumes f: "file_at files source_file = Some content"
    and split: "split_file_by_lines self source_file batch_size_mb table_name files
                  = (Inr paths, files')"
    and p: "p \<in> set paths"
  shows "\<exists>c. file_at files' p = Some c \<and>
           hd (text_lines c) = hd (text_lines content) \<and>
           (CR \<notin> set (hd (raw_lines content)) \<longrightarrow> hd (raw_lines c) = hd (raw_lines content))"
proof (cases "text_lines content")
  case Nil
  from f Nil split have "paths = []" by (simp add: split_file_by_lines_no_lines)
  with p show ?thesis by simp
next
  case (Cons h ls)
  from batch_of_path [OF f Cons split p]
  obtain g where fp: "file_at files' p = Some (h @ concat g)"
    and tl: "text_lines (h @ concat g) = h # g"
    and rl: "raw_lines (h @ concat g) = h # g" by blast
  have "hd (raw_lines (h @ concat g)) = hd (raw_lines content)"
    if "CR \<notin> set (hd (raw_lines content))"
  proof -
    from that have "hd (iter_lines (universal_newlines content)) = hd (iter_lines content)"
      unfolding raw_lines_def by (rule first_line_unchanged)
    with Cons have "h = hd (raw_lines content)" by (simp add: text_lines_def raw_lines_def)
    with rl show ?thesis by simp
  qed
  with fp tl Cons show ?thesis by simp
qed

theorem header_first_line_witness:
  "file_at \<lparr>file_at = [''data.csv'' \<mapsto> ''a,b'' @ [LF] @ ''1,2'' @ [LF]], dirs = {}\<rparr> ''data.csv''
     = Some (''a,b'' @ [LF] @ ''1,2'' @ [LF]) \<and>
   split_file_by_lines \<lparr>target_directory = ''out''\<rparr> ''data.csv'' 1 ''t''
       \<lparr>file_at = [''data.csv'' \<mapsto> ''a,b'' @ [LF] @ ''1,2'' @ [LF]], dirs = {}\<rparr>
     = (Inr [''out/t/t_batch_1.csv''],
        \<lparr>file_at = [''data.csv'' \<mapsto> ''a,b'' @ [LF] @ ''1,2'' @ [LF],
                    ''out/t/t_batch_1.csv'' \<mapsto> ''a,b'' @ [LF] @ ''1,2'' @ [LF]],
         dirs = {''out/t'', ''out''}\<rparr>) \<and>
   ''out/t/t_batch_1.csv'' \<in> set [''out/t/t_batch_1.csv''] \<and>
   CR \<notin> set (hd (raw_lines (''a,b'' @ [LF] @ ''1,2'' @ [LF]))) \<and>
   (\<exists>c. file_at \<lparr>file_at = [''data.csv'' \<mapsto> ''a,b'' @ [LF] @ ''1,2'' @ [LF],
                          ''out/t/t_batch_1.csv'' \<mapsto> ''a,b'' @ [LF] @ ''1,2'' @ [LF]],
               dirs = {''out/t'', ''out''}\<rparr> ''out/t/t_batch_1.csv''
          = Some c \<and>
        hd (text_lines c) = ''a,b'' @ [LF] \<and> hd (raw_lines c) = ''a,b'' @ [LF])"
proof -
  let ?c = "''a,b'' @ [LF] @ ''1,2'' @ [LF]"
  let ?p = "''out/t/t_batch_1.csv''"
  let ?files = "\<lparr>file_at = [''data.csv'' \<mapsto> ?c], dirs = {}\<rparr>"
  let ?files' = "\<lparr>file_at = [''data.csv'' \<mapsto> ?c, ?p \<mapsto> ?c], dirs = {''out/t'', ''out''}\<rparr>"
  have f: "file_at ?files ''data.csv'' = Some ?c" by simp
  have s: "split_file_by_lines \<lparr>target_directory = ''out''\<rparr> ''data.csv'' 1 ''t'' ?files
             = (Inr [?p], ?files')"
    by (simp add: eval_simps)
  have m: "?p \<in> set [?p]" by simp
  have cr: "CR \<notin> set (hd (raw_lines ?c))" by (simp add: raw_lines_def LF_def CR_def)
  have t: "hd (text_lines ?c) = ''a,b'' @ [LF]" by (simp add: text_lines_def LF_def CR_def)
  have r: "hd (raw_lines ?c) = ''a,b'' @ [LF]" by (simp add: raw_lines_def LF_def CR_def)
  from header_first_line
         [where files = ?files and source_file = "''data.csv''", OF f s m]
  obtain c where c1: "file_at ?files' ?p = Some c"
    and c2: "hd (text_lines c) = hd (text_lines ?c)"
    and c3: "CR \<notin> set (hd (raw_lines ?c)) \<longrightarrow> hd (raw_lines c) = hd (raw_lines ?c)"
    by (elim exE conjE)
  from c3 cr have c4: "hd (raw_lines c) = hd (raw_lines ?c)" by (rule mp)
  have e: "\<exists>c. file_at ?files' ?p = Some c \<and>
        hd (text_lines c) = ''a,b'' @ [LF] \<and> hd (raw_lines c) = ''a,b'' @ [LF]"
    using c1 c2 [unfolded t] c4 [unfolded r] by (intro exI [of _ c] conjI)
  show ?thesis using f s m cr e by (intro conjI)
qed

text \<open>
  C6. Every batch file that split_file_by_lines produces either holds a single data line
  that alone exceeds the target, or has a size of at most the target plus the size of one
  line, the header line, which every batch file repeats and the running count leaves out.
\<close>

theorem batch_size_bound:
  assumes f: "file_at files source_file = Some content"
    and split: "split_file_by_lines self source_file batch_size_mb table_name files
                  = (Inr paths, files')"
    and p: "p \<in> set paths"
  shows "\<exists>c lines. file_at files' p = Some c \<and> text_lines c = hd (text_lines content) # lines \<and>
           ((\<exists>l. lines = [l] \<and> int (length l) > batch_size_mb * 1024 * 1024) \<or>
            int (length c) \<le> batch_size_mb * 1024 * 1024 + int (length (hd (text_lines content))))"
proof (cases "text_lines content")
  case Nil
  from f Nil split have "paths = []" by (simp add: split_file_by_lines_no_lines)
  with p show ?thesis by simp
next
  case (Cons h ls)
  let ?T = "batch_size_mb * 1024 * 1024"
  from batch_of_path [OF f Cons split p]
  obtain g where g: "g \<in> set (group_lines ?T 0 [] ls)"
    and fp: "file_at files' p = Some (h @ concat g)"
    and tl: "text_lines (h @ concat g) = h # g" by blast
  have "length g = 1 \<or> size_lines g \<le> ?T"
    by (rule group_lines_bound [OF _ _ g]) simp_all
  then have "(\<exists>l. g = [l] \<and> int (length l) > ?T) \<or> size_lines g \<le> ?T"
  proof
    assume "length g = 1"
    then obtain l where "g = [l]" by (cases g) auto
    then show ?thesis by (cases "int (length l) > ?T") simp_all
  next
    assume "size_lines g \<le> ?T"
    then show ?thesis ..
  qed
  moreover have "int (length (h @ concat g)) = int (length h) + size_lines g"
    by (simp add: size_lines_def)
  ultimately have "(\<exists>l. g = [l] \<and> int (length l) > ?T) \<or>
      int (length (h @ concat g)) \<le> ?T + int (length h)" by auto
  with fp tl Cons show ?thesis by auto
qed

theorem batch_size_bound_witness:
  "file_at \<lparr>file_at = [''data.csv'' \<mapsto> ''a,b'' @ [LF] @ ''1,2'' @ [LF] @ ''3,4'' @ [LF]],
            dirs = {}\<rparr> ''data.csv''
     = Some (''a,b'' @ [LF] @ ''1,2'' @ [LF] @ ''3,4'' @ [LF]) \<and>
   split_file_by_lines \<lparr>target_directory = ''out''\<rparr> ''data.csv'' 1 ''t''
       \<lparr>file_at = [''data.csv'' \<mapsto> ''a,b'' @ [LF] @ ''1,2'' @ [LF] @ ''3,4'' @ [LF]], dirs = {}\<rparr>
     = (Inr [''out/t/t_batch_1.csv''],
        \<lparr>file_at = [''data.csv'' \<mapsto> ''a,b'' @ [LF] @ ''1,2'' @ [LF] @ ''3,4'' @ [LF],
          ''out/t/t_batch_1.csv'' \<mapsto> ''a,b'' @ [LF] @ ''1,2'' @ [LF] @ ''3,4'' @ [LF]],
         dirs = {''out/t'', ''out''}\<rparr>) \<and>
   ''out/t/t_batch_1.csv'' \<in> set [''out/t/t_batch_1.csv''] \<and>
   (\<exists>c lines.
      file_at \<lparr>file_at = [''data.csv'' \<mapsto> ''a,b'' @ [LF] @ ''1,2'' @ [LF] @ ''3,4'' @ [LF],
          ''out/t/t_batch_1.csv'' \<mapsto> ''a,b'' @ [LF] @ ''1,2'' @ [LF] @ ''3,4'' @ [LF]],
         dirs = {''out/t'', ''out''}\<rparr> ''out/t/t_batch_1.csv'' = Some c \<and>
      text_lines c = (''a,b'' @ [LF]) # lines \<and>
      ((\<exists>l. lines = [l] \<and> int (length l) > 1 * 1024 * 1024) \<or>
       int (length c) \<le> 1 * 1024 * 1024 + int (length (''a,b'' @ [LF]))))"
proof -
  let ?c = "''a,b'' @ [LF] @ ''1,2'' @ [LF] @ ''3,4'' @ [LF]"
  let ?p = "''out/t/t_batch_1.csv''"
  let ?files = "\<lparr>file_at = [''data.csv'' \<mapsto> ?c], dirs = {}\<rparr>"
  let ?files' = "\<lparr>file_at = [''data.csv'' \<mapsto> ?c, ?p \<mapsto> ?c], dirs = {''out/t'', ''out''}\<rparr>"
  have f: "file_at ?files ''data.csv'' = Some ?c" by simp
  have s: "split_file_by_lines \<lparr>target_directory = ''out''\<rparr> ''data.csv'' 1 ''t'' ?files
             = (Inr [?p], ?files')"
    by (simp add: eval_simps)
  have m: "?p \<in> set [?p]" by simp
  have t: "hd (text_lines ?c) = ''a,b'' @ [LF]" by (simp add: text_lines_def LF_def CR_def)
  note e = batch_size_bound
         [where files = ?files and source_file = "''data.csv''", OF f s m, unfolded t]
  show ?thesis using f s m e by (intro conjI)
qed






section \<open>Properties of split_file\<close>



section \<open>Properties of split_multiple_files\<close>

text \<open>
  C5. As stated, for every sequence of configs, the property fails when a label occurs
  twice: the dictionary keeps one entry for the label, the one of the last config that
  carries it. A label whose first call raised maps to the batch files of a later call,
  and a label whose first call wrote batch files maps to the empty list when a later
  call raises.
\<close>

theorem repeated_label_counterexample:
  "fst (split_file_by_lines (fst (FileSplitter_init ''out'' \<lparr>file_at = [''data.csv'' \<mapsto> ''h'' @ [LF] @ ''1'' @ [LF]], dirs = {}\<rparr>)) ''missing.csv'' 1 ''t''
         \<lparr>file_at = [''data.csv'' \<mapsto> ''h'' @ [LF] @ ''1'' @ [LF]], dirs = {}\<rparr>) = Inl FileNotFoundError \<and>
   fst (split_multiple_files [(''missing.csv'', 1, ''t''), (''data.csv'', 1, ''t'')] ''out''
         \<lparr>file_at = [''data.csv'' \<mapsto> ''h'' @ [LF] @ ''1'' @ [LF]], dirs = {}\<rparr>)
     = [(''t'', [''out/t/t_batch_1.csv''])] \<and>
   fst (split_file_by_lines (fst (FileSplitter_init ''out'' \<lparr>file_at = [''data.csv'' \<mapsto> ''h'' @ [LF] @ ''1'' @ [LF]], dirs = {}\<rparr>)) ''data.csv'' 1 ''t''
         \<lparr>file_at = [''data.csv'' \<mapsto> ''h'' @ [LF] @ ''1'' @ [LF]], dirs = {}\<rparr>) = Inr [''out/t/t_batch_1.csv''] \<and>
   fst (split_multiple_files [(''data.csv'', 1, ''t''), (''missing.csv'', 1, ''t'')] ''out''
         \<lparr>file_at = [''data.csv'' \<mapsto> ''h'' @ [LF] @ ''1'' @ [LF]], dirs = {}\<rparr>)
     = [(''t'', [])]"
  by (simp add: planner_eval)

text \<open>
  C5, amended. For every sequence of configs with pairwise distinct labels,
  split_multiple_files returns a dictionary whose keys are the labels in the order of
  the configs; the label of a config whose call of the splitter raised, on the file
  system that the configs before it left, maps to the empty list, the label of a config
  whose call returned maps to the batch files it returned, and this holds for every
  config of the sequence, whatever happened to the ones before it. The result has no
  error branch: everything that can raise stands in the try block. The witness is the
  sequence of three configs whose second names a missing source.
\<close>

theorem planner_resilience:
  assumes "distinct (map label file_configs)"
  shows "map fst (fst (split_multiple_files file_configs target files)) = map label file_configs \<and>
    (\<forall>pre source_file batch_size_mb table_name post.
        file_configs = pre @ (source_file, batch_size_mb, table_name) # post \<longrightarrow>
        (\<forall>e. fst (split_file_by_lines (fst (FileSplitter_init target files)) source_file
                    batch_size_mb table_name (snd (split_multiple_files pre target files)))
                = Inl e \<longrightarrow>
             map_of (fst (split_multiple_files file_configs target files)) table_name = Some []) \<and>
        (\<forall>paths. fst (split_file_by_lines (fst (FileSplitter_init target files)) source_file
                    batch_size_mb table_name (snd (split_multiple_files pre target files)))
                = Inr paths \<longrightarrow>
             map_of (fst (split_multiple_files file_configs target files)) table_name
               = Some paths))"
proof (intro conjI allI impI)
  show "map fst (fst (split_multiple_files file_configs target files)) = map label file_configs"
    using assms split_multiple_keys [of file_configs "[]" "\<lparr>target_directory = target\<rparr>"
                                       "mkdir target files"]
    by (simp add: split_multiple_files_def FileSplitter_init_def)
next
  fix pre source_file batch_size_mb table_name post e
  assume c: "file_configs = pre @ (source_file, batch_size_mb, table_name) # post"
    and r: "fst (split_file_by_lines (fst (FileSplitter_init target files)) source_file
                   batch_size_mb table_name (snd (split_multiple_files pre target files))) = Inl e"
  from assms c split_multiple_at [of pre source_file batch_size_mb table_name post
      "\<lparr>target_directory = target\<rparr>" "[]" "mkdir target files"] r
  show "map_of (fst (split_multiple_files file_configs target files)) table_name = Some []"
    by (simp add: split_multiple_files_def FileSplitter_init_def outcome_def)
next
  fix pre source_file batch_size_mb table_name post paths
  assume c: "file_configs = pre @ (source_file, batch_size_mb, table_name) # post"
    and r: "fst (split_file_by_lines (fst (FileSplitter_init target files)) source_file
                   batch_size_mb table_name (snd (split_multiple_files pre target files)))
              = Inr paths"
  from assms c split_multiple_at [of pre source_file batch_size_mb table_name post
      "\<lparr>target_directory = target\<rparr>" "[]" "mkdir target files"] r
  show "map_of (fst (split_multiple_files file_configs target files)) table_name = Some paths"
    by (simp add: split_multiple_files_def FileSplitter_init_def outcome_def)
qed

theorem planner_resilience_witness:
  "distinct (map label [(''a.csv'', 1, ''ta''), (''missing.csv'', 1, ''tb''), (''c.csv'', 1, ''tc'')]) \<and>
   fst (split_file_by_lines
          (fst (FileSplitter_init ''out''
                  \<lparr>file_at = [''a.csv'' \<mapsto> ''h'' @ [LF] @ ''1'' @ [LF],
                               ''c.csv'' \<mapsto> ''k'' @ [LF] @ ''2'' @ [LF]], dirs = {}\<rparr>))
          ''missing.csv'' 1 ''tb''
          (snd (split_multiple_files [(''a.csv'', 1, ''ta'')] ''out''
                  \<lparr>file_at = [''a.csv'' \<mapsto> ''h'' @ [LF] @ ''1'' @ [LF],
                               ''c.csv'' \<mapsto> ''k'' @ [LF] @ ''2'' @ [LF]], dirs = {}\<rparr>)))
     = Inl FileNotFoundError \<and>
   map fst (fst (split_multiple_files
                   [(''a.csv'', 1, ''ta''), (''missing.csv'', 1, ''tb''), (''c.csv'', 1, ''tc'')] ''out''
                   \<lparr>file_at = [''a.csv'' \<mapsto> ''h'' @ [LF] @ ''1'' @ [LF],
                               ''c.csv'' \<mapsto> ''k'' @ [LF] @ ''2'' @ [LF]], dirs = {}\<rparr>))
     = [''ta'', ''tb'', ''tc''] \<and>
   map_of (fst (split_multiple_files
                  [(''a.csv'', 1, ''ta''), (''missing.csv'', 1, ''tb''), (''c.csv'', 1, ''tc'')] ''out''
                  \<lparr>file_at = [''a.csv'' \<mapsto> ''h'' @ [LF] @ ''1'' @ [LF],
                               ''c.csv'' \<mapsto> ''k'' @ [LF] @ ''2'' @ [LF]], dirs = {}\<rparr>)) ''tb''
     = Some [] \<and>
   fst (split_multiple_files
          [(''a.csv'', 1, ''ta''), (''missing.csv'', 1, ''tb''), (''c.csv'', 1, ''tc'')] ''out''
          \<lparr>file_at = [''a.csv'' \<mapsto> ''h'' @ [LF] @ ''1'' @ [LF],
                               ''c.csv'' \<mapsto> ''k'' @ [LF] @ ''2'' @ [LF]], dirs = {}\<rparr>)
     = [(''ta'', [''out/ta/ta_batch_1.csv'']), (''tb'', []), (''tc'', [''out/tc/tc_batch_1.csv''])]"
proof -
  let ?c1 = "(''a.csv'', 1::int, ''ta'')"
  let ?c3 = "(''c.csv'', 1::int, ''tc'')"
  let ?cfgs = "[?c1, (''missing.csv'', 1, ''tb''), ?c3]"
  let ?files = "\<lparr>file_at = [''a.csv'' \<mapsto> ''h'' @ [LF] @ ''1'' @ [LF],
                             ''c.csv'' \<mapsto> ''k'' @ [LF] @ ''2'' @ [LF]], dirs = {}\<rparr>"
  have d: "distinct (map label ?cfgs)" by simp
  have m: "fst (split_file_by_lines (fst (FileSplitter_init ''out'' ?files)) ''missing.csv'' 1 ''tb''
                  (snd (split_multiple_files [?c1] ''out'' ?files))) = Inl FileNotFoundError"
    by (simp add: planner_eval)
  have l: "map label ?cfgs = [''ta'', ''tb'', ''tc'']" by simp
  have c: "?cfgs = [?c1] @ (''missing.csv'', 1, ''tb'') # [?c3]" by simp
  note res = planner_resilience [OF d, of "''out''" ?files]
  have keys: "map fst (fst (split_multiple_files ?cfgs ''out'' ?files)) = [''ta'', ''tb'', ''tc'']"
    using res [THEN conjunct1] unfolding l .
  have tb: "map_of (fst (split_multiple_files ?cfgs ''out'' ?files)) ''tb'' = Some []"
    by (rule res [THEN conjunct2, rule_format, THEN conjunct1, rule_format, OF c m])
  have all: "fst (split_multiple_files ?cfgs ''out'' ?files)
     = [(''ta'', [''out/ta/ta_batch_1.csv'']), (''tb'', []), (''tc'', [''out/tc/tc_batch_1.csv''])]"
    by (simp add: planner_eval)
  show ?thesis using d m keys tb all by (intro conjI)
qed

end
